theory Spec2Isabelle
  imports Main
begin

section \<open>JavaScript values, exceptions and the behaviour of caller code\<close>

text \<open>
  The container of \<^verbatim>\<open>src/index.ts\<close> is keyed by arbitrary JavaScript values and stores
  arbitrary JavaScript values. Objects (classes, functions, plain objects, instances) are
  references compared by identity: \<open>Static n\<close> is an object that exists before the
  container is used, \<open>Allocated n\<close> is the \<open>n\<close>-th object created by a \<^verbatim>\<open>new\<close> expression
  of the container. Symbols carry a unique number and their optional description.
  Numbers are left out (their string form is floating-point formatting).
  On these values the key comparison of a JavaScript \<^verbatim>\<open>Map\<close> is equality.
\<close>

datatype ref = Static nat | Allocated nat

datatype jsval =
    Undefined
  | Null
  | Bool bool
  | Str string
  | Sym nat "string option"
  | Obj ref

text \<open>
  What can be thrown: a \<^verbatim>\<open>TypeError\<close> of the runtime, any value thrown by caller code, or
  the \<^verbatim>\<open>ConstructionError\<close> of the source with its message and its cause.
\<close>

datatype exn =
    TypeError string
  | Thrown jsval
  | ConstructionError string exn

text \<open>
  The caller's objects are described by their observable behaviour:
  the \<^verbatim>\<open>name\<close> property (\<open>None\<close> when it is \<^verbatim>\<open>undefined\<close>; a string otherwise, as it is
  for every function and class), the string that \<^verbatim>\<open>toString()\<close> returns, the static
  \<^verbatim>\<open>dependencies\<close> method (\<open>None\<close> when the property is absent or falsy; otherwise the
  array it returns or what it throws), and the constructor body (\<open>Some e\<close> when
  \<^verbatim>\<open>new\<close> on these arguments throws \<open>e\<close>, which includes an object that is not a
  constructor; \<open>None\<close> when it completes and yields the new instance).
  Caller code is taken not to call back into the container it is constructed by: a
  constructor, a \<^verbatim>\<open>dependencies\<close> method and a provider see their arguments only.
\<close>

record world =
  obj_name :: "ref \<Rightarrow> string option"
  obj_toString :: "ref \<Rightarrow> string"
  obj_dependencies :: "ref \<Rightarrow> (exn + jsval list) option"
  obj_new :: "ref \<Rightarrow> jsval list \<Rightarrow> exn option"

text \<open>A provider is a function of no arguments that returns a value or throws.\<close>

type_synonym provider = "unit \<Rightarrow> exn + jsval"

text \<open>
  Calls into caller code are observable. The log records every invocation of a provider
  and every \<^verbatim>\<open>new\<close> expression, with the arguments and the outcome.
\<close>

datatype event =
    Provided jsval "exn + jsval"
  | Constructed jsval "jsval list" "exn + jsval"

text \<open>
  The state: the two private maps of \<^verbatim>\<open>DIContainer\<close>, the number of objects allocated
  so far and the log of calls into caller code.
\<close>

record state =
  instances :: "jsval \<rightharpoonup> jsval"
  providers :: "jsval \<rightharpoonup> provider"
  allocated :: nat
  calls :: "event list"

text \<open>A computation returns an exception or a value, with the state it leaves;
  \<open>None\<close> is a computation that does not return (unbounded recursion).\<close>

type_synonym 'a outcome = "((exn + 'a) \<times> state) option"

section \<open>The property reads of the source\<close>

text \<open>\<^verbatim>\<open>x.name\<close> for a key that is neither null nor undefined; primitives have none.\<close>

fun get_name :: "world \<Rightarrow> jsval \<Rightarrow> string option" where
  "get_name w (Obj r) = obj_name w r"
| "get_name w _ = None"

text \<open>\<^verbatim>\<open>x.toString()\<close> for a key that is neither null nor undefined.\<close>

fun toString :: "world \<Rightarrow> jsval \<Rightarrow> string" where
  "toString w (Bool b) = (if b then ''true'' else ''false'')"
| "toString w (Str s) = s"
| "toString w (Sym n d) = ''Symbol('' @ (case d of None \<Rightarrow> [] | Some t \<Rightarrow> t) @ '')''"
| "toString w (Obj r) = obj_toString w r"
| "toString w Undefined = ''undefined''"
| "toString w Null = ''null''"

text \<open>
  \<^verbatim>\<open>object.dependencies ? object.dependencies().map(...) : []\<close>, up to the array that is
  mapped: reading a property of null or undefined throws, a primitive has no such property.
\<close>

fun get_dependencies :: "world \<Rightarrow> jsval \<Rightarrow> exn + jsval list" where
  "get_dependencies w Undefined = Inl (TypeError ''Cannot read properties of undefined'')"
| "get_dependencies w Null = Inl (TypeError ''Cannot read properties of null'')"
| "get_dependencies w (Obj r) = (case obj_dependencies w r of None \<Rightarrow> Inr [] | Some res \<Rightarrow> res)"
| "get_dependencies w _ = Inr []"

text \<open>\<^verbatim>\<open>new object(...dependencies)\<close>: only an object can be a constructor.\<close>

fun js_new :: "world \<Rightarrow> jsval \<Rightarrow> jsval list \<Rightarrow> exn option" where
  "js_new w (Obj r) args = obj_new w r args"
| "js_new w _ args = Some (TypeError ''object is not a constructor'')"

section \<open>ConstructionError\<close>

text \<open>
  The constructor of \<^verbatim>\<open>ConstructionError\<close>. When the key is null or undefined the
  reference is the key itself, which string concatenation renders as \<^verbatim>\<open>null\<close> or
  \<^verbatim>\<open>undefined\<close>.
\<close>

definition reference :: "world \<Rightarrow> jsval \<Rightarrow> string" where
  "reference w x =
     (if x = Null \<or> x = Undefined then toString w x
      else if get_name w x \<noteq> None then the (get_name w x)
      else toString w x)"

definition new_ConstructionError :: "world \<Rightarrow> jsval \<Rightarrow> exn \<Rightarrow> exn" where
  "new_ConstructionError w x cause = ConstructionError (''Error constructing '' @ reference w x) cause"

section \<open>DIContainer\<close>

text \<open>\<^verbatim>\<open>new DIContainer()\<close>: both maps empty; the runtime keeps its history.\<close>

definition new_DIContainer :: "state \<Rightarrow> state" where
  "new_DIContainer s = s\<lparr>instances := Map.empty, providers := Map.empty\<rparr>"

definition add :: "state \<Rightarrow> jsval \<Rightarrow> jsval \<Rightarrow> state" where
  "add s key v = s\<lparr>instances := (instances s)(key \<mapsto> v)\<rparr>"

definition provide :: "state \<Rightarrow> jsval \<Rightarrow> provider \<Rightarrow> state" where
  "provide s key v = s\<lparr>providers := (providers s)(key \<mapsto> v)\<rparr>"

text \<open>\<^verbatim>\<open>Map.prototype.has\<close> and \<^verbatim>\<open>Map.prototype.get\<close> on the instance cache.\<close>

definition Map_has :: "('k \<rightharpoonup> 'v) \<Rightarrow> 'k \<Rightarrow> bool" where
  "Map_has m k = (m k \<noteq> None)"

definition Map_get :: "('k \<rightharpoonup> jsval) \<Rightarrow> 'k \<Rightarrow> jsval" where
  "Map_get m k = (case m k of None \<Rightarrow> Undefined | Some v \<Rightarrow> v)"

text \<open>
  \<^verbatim>\<open>constructViaProvider\<close>: call the registered provider, and when it returns, store and
  return its result. Calling a missing provider would be calling \<^verbatim>\<open>undefined\<close>.
\<close>

definition constructViaProvider :: "state \<Rightarrow> jsval \<Rightarrow> (exn + jsval) \<times> state" where
  "constructViaProvider s key =
     (case providers s key of
        None \<Rightarrow> (Inl (TypeError ''this.providers.get(...) is not a function''), s)
      | Some fn \<Rightarrow>
          (let r = fn (); s1 = s\<lparr>calls := calls s @ [Provided key r]\<rparr>
           in case r of
                Inl e \<Rightarrow> (Inl e, s1)
              | Inr instance \<Rightarrow> (Inr instance, add s1 key instance)))"

text \<open>
  \<^verbatim>\<open>Array.prototype.map\<close> with a callback that changes the state: the elements are
  visited from left to right, and the first exception ends the loop.
\<close>

fun array_map :: "(state \<Rightarrow> jsval \<Rightarrow> jsval outcome) \<Rightarrow> state \<Rightarrow> jsval list \<Rightarrow> (jsval list) outcome" where
  "array_map f s [] = Some (Inr [], s)"
| "array_map f s (x # xs) =
     (case f s x of
        None \<Rightarrow> None
      | Some (Inl e, s1) \<Rightarrow> Some (Inl e, s1)
      | Some (Inr v, s1) \<Rightarrow>
          (case array_map f s1 xs of
             None \<Rightarrow> None
           | Some (Inl e, s2) \<Rightarrow> Some (Inl e, s2)
           | Some (Inr vs, s2) \<Rightarrow> Some (Inr (v # vs), s2)))"

text \<open>
  \<^verbatim>\<open>new object(...dependencies)\<close> followed by \<^verbatim>\<open>this.add(object, instance)\<close>: the new
  instance is the next unallocated object.
\<close>

definition instantiate :: "world \<Rightarrow> state \<Rightarrow> jsval \<Rightarrow> jsval list \<Rightarrow> (exn + jsval) \<times> state" where
  "instantiate w s object dependencies =
     (case js_new w object dependencies of
        Some e \<Rightarrow> (Inl e, s\<lparr>calls := calls s @ [Constructed object dependencies (Inl e)]\<rparr>)
      | None \<Rightarrow>
          (let instance = Obj (Allocated (allocated s));
               s1 = s\<lparr>allocated := Suc (allocated s),
                      calls := calls s @ [Constructed object dependencies (Inr instance)]\<rparr>
           in (Inr instance, add s1 object instance)))"

text \<open>
  \<^verbatim>\<open>constructViaDependencies\<close>, with \<^verbatim>\<open>this.construct\<close> as the parameter \<open>construct'\<close>.
\<close>

definition constructViaDependencies ::
  "(state \<Rightarrow> jsval \<Rightarrow> jsval outcome) \<Rightarrow> world \<Rightarrow> state \<Rightarrow> jsval \<Rightarrow> jsval outcome" where
  "constructViaDependencies construct' w s object =
     (case get_dependencies w object of
        Inl e \<Rightarrow> Some (Inl e, s)
      | Inr ds \<Rightarrow>
          (case array_map construct' s ds of
             None \<Rightarrow> None
           | Some (Inl e, s1) \<Rightarrow> Some (Inl e, s1)
           | Some (Inr dependencies, s1) \<Rightarrow> Some (instantiate w s1 object dependencies)))"

text \<open>The \<^verbatim>\<open>catch\<close> clause of \<^verbatim>\<open>construct\<close>: whatever was thrown is wrapped.\<close>

definition try_catch :: "world \<Rightarrow> jsval \<Rightarrow> jsval outcome \<Rightarrow> jsval outcome" where
  "try_catch w object body =
     (case body of
        None \<Rightarrow> None
      | Some (Inl e, s1) \<Rightarrow> Some (Inl (new_ConstructionError w object e), s1)
      | Some (Inr v, s1) \<Rightarrow> Some (Inr v, s1))"

text \<open>
  \<^verbatim>\<open>construct\<close>. The source recurses without bound on a cyclic dependency graph; the first
  argument bounds the depth of the recursion, and \<open>None\<close> is a call that needs more.
\<close>

fun construct :: "nat \<Rightarrow> world \<Rightarrow> state \<Rightarrow> jsval \<Rightarrow> jsval outcome" where
  "construct 0 w s object = None"
| "construct (Suc n) w s object =
     try_catch w object
       (if Map_has (instances s) object then Some (Inr (Map_get (instances s) object), s)
        else if Map_has (providers s) object then Some (constructViaProvider s object)
        else constructViaDependencies (construct n w) w s object)"

text \<open>
  The life of a container: a sequence of calls of its three public methods. A caller may
  catch a \<^verbatim>\<open>ConstructionError\<close> and go on using the container.
\<close>

datatype operation = Add jsval jsval | Provide jsval provider | Construct jsval

fun step :: "nat \<Rightarrow> world \<Rightarrow> state \<Rightarrow> operation \<Rightarrow> state option" where
  "step n w s (Add k v) = Some (add s k v)"
| "step n w s (Provide k fn) = Some (provide s k fn)"
| "step n w s (Construct k) = map_option snd (construct n w s k)"

fun run :: "nat \<Rightarrow> world \<Rightarrow> state \<Rightarrow> operation list \<Rightarrow> state option" where
  "run n w s [] = Some s"
| "run n w s (x # xs) = (case step n w s x of None \<Rightarrow> None | Some s1 \<Rightarrow> run n w s1 xs)"

section \<open>Reading the log\<close>

text \<open>The key and the outcome of a logged call.\<close>

fun event_key :: "event \<Rightarrow> jsval" where
  "event_key (Provided k r) = k"
| "event_key (Constructed k args r) = k"

fun event_outcome :: "event \<Rightarrow> exn + jsval" where
  "event_outcome (Provided k r) = r"
| "event_outcome (Constructed k args r) = r"

text \<open>A logged call that threw.\<close>

definition failed :: "event \<Rightarrow> bool" where
  "failed e = isl (event_outcome e)"

text \<open>A constructor of the key completed; \<^verbatim>\<open>new\<close> was evaluated on the key.\<close>

fun constructs :: "jsval \<Rightarrow> event \<Rightarrow> bool" where
  "constructs k (Constructed j args (Inr v)) = (j = k)"
| "constructs k _ = False"

fun invokes :: "jsval \<Rightarrow> event \<Rightarrow> bool" where
  "invokes k (Constructed j args r) = (j = k)"
| "invokes k (Provided j r) = False"


text \<open>
  Replaying a log on a cache: every call is for a key that is not in the cache at that
  moment, and a call that produced a value puts it under its key.
\<close>

fun replay :: "(jsval \<rightharpoonup> jsval) \<Rightarrow> event list \<Rightarrow> (jsval \<rightharpoonup> jsval) option" where
  "replay m [] = Some m"
| "replay m (e # es) =
     (if m (event_key e) \<noteq> None then None
      else replay (case event_outcome e of Inl _ \<Rightarrow> m | Inr v \<Rightarrow> m(event_key e \<mapsto> v)) es)"

text \<open>
  An event respects the provided value \<open>v\<close> of the key \<open>k\<close> when it is not a \<^verbatim>\<open>new\<close>, or
  when the arguments of the \<^verbatim>\<open>new\<close> are as many as the declared dependencies of its
  class and hold \<open>v\<close> at every position where \<open>k\<close> is declared.
\<close>

definition receives :: "world \<Rightarrow> jsval \<Rightarrow> jsval \<Rightarrow> event \<Rightarrow> bool" where
  "receives w k v e =
     (case e of
        Provided _ _ \<Rightarrow> True
      | Constructed p args _ \<Rightarrow>
          (case get_dependencies w p of
             Inl _ \<Rightarrow> True
           | Inr ds \<Rightarrow> length args = length ds \<and> (\<forall>i<length ds. ds ! i = k \<longrightarrow> args ! i = v)))"

text \<open>A list of keys in which each key declares the next one as a dependency.\<close>

fun is_path :: "world \<Rightarrow> jsval list \<Rightarrow> bool" where
  "is_path w (a # b # ks) =
     ((case get_dependencies w a of Inl _ \<Rightarrow> False | Inr ds \<Rightarrow> b \<in> set ds) \<and> is_path w (b # ks))"
| "is_path w _ = True"

text \<open>
  The exception \<open>root\<close> was raised by the key \<open>j\<close> itself during the calls \<open>es\<close>: by reading
  or calling its \<^verbatim>\<open>dependencies\<close> (then no logged call threw), or by its provider or its
  constructor (then this is the last logged call).
\<close>

definition root_cause :: "world \<Rightarrow> jsval \<Rightarrow> exn \<Rightarrow> event list \<Rightarrow> bool" where
  "root_cause w j root es \<longleftrightarrow>
     get_dependencies w j = Inl root \<and> list_all (\<lambda>e. \<not> failed e) es
     \<or> es \<noteq> [] \<and> event_key (last es) = j \<and> event_outcome (last es) = Inl root"

section \<open>Keys that wait for one another\<close>

text \<open>
  The keys of \<open>T\<close> are blocked in the state \<open>s\<close>: none is cached or has a provider, and
  each declares a dependency that is in \<open>T\<close>, or declares every key of \<open>X\<close>. While a key
  of \<open>X\<close> is being constructed, no key of \<open>T\<close> can be completed.
\<close>

definition blocked :: "world \<Rightarrow> state \<Rightarrow> jsval set \<Rightarrow> jsval set \<Rightarrow> bool" where
  "blocked w s T X \<longleftrightarrow>
     (\<forall>a\<in>T. instances s a = None \<and> providers s a = None \<and>
        (\<exists>ds. get_dependencies w a = Inr ds \<and> ((\<exists>b\<in>set ds. b \<in> T) \<or> X \<subseteq> set ds)))"

section \<open>The message in the words of the specification\<close>


section \<open>The classes of the tests\<close>

text \<open>
  A runtime in which nothing has happened yet, and the classes of \<^verbatim>\<open>index.test.ts\<close>:
  \<open>NoDependencies\<close> has no \<^verbatim>\<open>dependencies\<close> method, \<open>HasDefaults\<close> declares none,
  \<open>DefaultsAndDependencies\<close> declares the two. Added to them: a class whose constructor
  throws, classes that depend on it directly and through another class, a class that
  declares the same dependency twice, and a plain object, which is not a constructor.
\<close>

definition empty_state :: state where
  "empty_state = \<lparr>instances = Map.empty, providers = Map.empty, allocated = 0, calls = []\<rparr>"

definition NoDependencies :: jsval where "NoDependencies = Obj (Static 0)"
definition HasDefaults :: jsval where "HasDefaults = Obj (Static 1)"
definition DefaultsAndDependencies :: jsval where "DefaultsAndDependencies = Obj (Static 2)"
definition Broken :: jsval where "Broken = Obj (Static 3)"
definition NeedsBroken :: jsval where "NeedsBroken = Obj (Static 4)"
definition plain_object :: jsval where "plain_object = Obj (Static 5)"
definition Outer :: jsval where "Outer = Obj (Static 6)"
definition Diamond :: jsval where "Diamond = Obj (Static 7)"

definition test_world :: world where
  "test_world =
     \<lparr>obj_name = (\<lambda>r.
         if r = Static 0 then Some ''NoDependencies''
         else if r = Static 1 then Some ''HasDefaults''
         else if r = Static 2 then Some ''DefaultsAndDependencies''
         else if r = Static 3 then Some ''Broken''
         else if r = Static 4 then Some ''NeedsBroken''
         else if r = Static 6 then Some ''Outer''
         else if r = Static 7 then Some ''Diamond''
         else None),
      obj_toString = (\<lambda>r. ''[object Object]''),
      obj_dependencies = (\<lambda>r.
         if r = Static 1 then Some (Inr [])
         else if r = Static 2 then Some (Inr [NoDependencies, HasDefaults])
         else if r = Static 4 then Some (Inr [NoDependencies, Broken])
         else if r = Static 6 then Some (Inr [HasDefaults, NeedsBroken])
         else if r = Static 7 then Some (Inr [NoDependencies, DefaultsAndDependencies, NoDependencies])
         else None),
      obj_new = (\<lambda>r args.
         if r = Static 0 \<or> r = Static 1 \<or> r = Static 2 \<or> r = Static 4
            \<or> r = Static 6 \<or> r = Static 7 then None
         else if r = Static 3 then Some (Thrown (Str ''boom''))
         else Some (TypeError ''object is not a constructor''))\<rparr>"

section \<open>Caller code that calls back\<close>

text \<open>
  The definitions so far take caller code to be plain: a provider, a constructor and a
  \<^verbatim>\<open>dependencies\<close> method return or throw, a constructor yields the new instance, and the
  key of a \<^verbatim>\<open>ConstructionError\<close> has a string form. The source does not require any of
  this. In lines 109 to 123 caller code runs before \<^verbatim>\<open>this.add\<close> and holds a reference to
  the container if the caller gave it one; \<^verbatim>\<open>new\<close> yields the object that the constructor
  returns when it returns one; and in lines 128 to 134 \<^verbatim>\<open>x.toString()\<close> and the
  concatenation are calls into the key. The second model below drops the three
  assumptions. Its names carry a prime.

  Caller code is a tree: it returns, throws, or calls a method of the container and goes on
  with the outcome (of \<^verbatim>\<open>construct\<close>: the value returned or the exception caught).
\<close>

datatype 'a code =
    Return 'a
  | Throw exn
  | Call_construct jsval "exn + jsval \<Rightarrow> 'a code"
  | Call_add jsval jsval "'a code"
  | Call_provide jsval jsval "'a code"

text \<open>
  The caller's objects: the value of the \<^verbatim>\<open>name\<close> property (any value, \<open>Undefined\<close> when
  absent), the outcome of \<^verbatim>\<open>toString()\<close> (it throws when the object has no such method),
  the \<^verbatim>\<open>dependencies\<close> method (\<open>None\<close> when absent or falsy), the constructor body for
  given arguments (\<open>None\<close> when the object is not a constructor; the body returns
  \<open>Some r\<close> when it returns the object \<open>r\<close>, which \<^verbatim>\<open>new\<close> then yields, and \<open>None\<close>
  when it leaves \<^verbatim>\<open>new\<close> to yield the new instance), and the body of the object called as
  a function without arguments (\<open>None\<close> when it is not callable).
\<close>

record caller =
  name_of :: "ref \<Rightarrow> jsval"
  toString_of :: "ref \<Rightarrow> exn + string"
  dependencies_of :: "ref \<Rightarrow> (jsval list) code option"
  constructor_of :: "ref \<Rightarrow> jsval list \<Rightarrow> (ref option) code option"
  function_of :: "ref \<Rightarrow> jsval code option"

text \<open>The state; a provider is now a value, the function that was registered.\<close>

record container =
  instances' :: "jsval \<rightharpoonup> jsval"
  providers' :: "jsval \<rightharpoonup> jsval"
  allocated' :: nat
  calls' :: "event list"

definition new_DIContainer' :: "container \<Rightarrow> container" where
  "new_DIContainer' s = s\<lparr>instances' := Map.empty, providers' := Map.empty\<rparr>"

definition add' :: "container \<Rightarrow> jsval \<Rightarrow> jsval \<Rightarrow> container" where
  "add' s key v = s\<lparr>instances' := (instances' s)(key \<mapsto> v)\<rparr>"

definition provide' :: "container \<Rightarrow> jsval \<Rightarrow> jsval \<Rightarrow> container" where
  "provide' s key v = s\<lparr>providers' := (providers' s)(key \<mapsto> v)\<rparr>"

text \<open>
  Running caller code, with \<^verbatim>\<open>construct\<close> of the container as the parameter
  \<open>construct'\<close>.
\<close>

primrec exec :: "'a code \<Rightarrow> (container \<Rightarrow> jsval \<Rightarrow> ((exn + jsval) \<times> container) option)
    \<Rightarrow> container \<Rightarrow> ((exn + 'a) \<times> container) option" where
  "exec (Return a) construct' s = Some (Inr a, s)"
| "exec (Throw e) construct' s = Some (Inl e, s)"
| "exec (Call_construct key rest) construct' s =
     (case construct' s key of
        None \<Rightarrow> None
      | Some (r, s1) \<Rightarrow> exec (rest r) construct' s1)"
| "exec (Call_add key v rest) construct' s = exec rest construct' (add' s key v)"
| "exec (Call_provide key v rest) construct' s = exec rest construct' (provide' s key v)"

text \<open>The three calls into caller code that the container makes.\<close>

fun function_code :: "caller \<Rightarrow> jsval \<Rightarrow> jsval code" where
  "function_code w (Obj r) =
     (case function_of w r of
        None \<Rightarrow> Throw (TypeError ''this.providers.get(...) is not a function'')
      | Some body \<Rightarrow> body)"
| "function_code w _ = Throw (TypeError ''this.providers.get(...) is not a function'')"

fun dependencies_code :: "caller \<Rightarrow> jsval \<Rightarrow> (jsval list) code" where
  "dependencies_code w Undefined = Throw (TypeError ''Cannot read properties of undefined'')"
| "dependencies_code w Null = Throw (TypeError ''Cannot read properties of null'')"
| "dependencies_code w (Obj r) = (case dependencies_of w r of None \<Rightarrow> Return [] | Some body \<Rightarrow> body)"
| "dependencies_code w _ = Return []"

fun constructor_code :: "caller \<Rightarrow> jsval \<Rightarrow> jsval list \<Rightarrow> (ref option) code" where
  "constructor_code w (Obj r) args =
     (case constructor_of w r args of
        None \<Rightarrow> Throw (TypeError ''object is not a constructor'')
      | Some body \<Rightarrow> body)"
| "constructor_code w _ args = Throw (TypeError ''object is not a constructor'')"

text \<open>
  The constructor of \<^verbatim>\<open>ConstructionError\<close>, which can throw: \<^verbatim>\<open>x.name\<close> and
  \<^verbatim>\<open>x.toString()\<close> as the key has them, and the conversion of the reference to a string
  by the concatenation (a symbol cannot be converted, an object is converted by its
  \<^verbatim>\<open>toString\<close>).
\<close>

fun get_name' :: "caller \<Rightarrow> jsval \<Rightarrow> jsval" where
  "get_name' w (Obj r) = name_of w r"
| "get_name' w _ = Undefined"

fun toString' :: "caller \<Rightarrow> jsval \<Rightarrow> exn + string" where
  "toString' w (Bool b) = Inr (if b then ''true'' else ''false'')"
| "toString' w (Str s) = Inr s"
| "toString' w (Sym n d) = Inr (''Symbol('' @ (case d of None \<Rightarrow> [] | Some t \<Rightarrow> t) @ '')'')"
| "toString' w (Obj r) = toString_of w r"
| "toString' w Undefined = Inr ''undefined''"
| "toString' w Null = Inr ''null''"

fun concatenated :: "caller \<Rightarrow> jsval \<Rightarrow> exn + string" where
  "concatenated w (Sym n d) = Inl (TypeError ''Cannot convert a Symbol value to a string'')"
| "concatenated w v = toString' w v"

definition reference' :: "caller \<Rightarrow> jsval \<Rightarrow> exn + jsval" where
  "reference' w x =
     (if x = Null \<or> x = Undefined then Inr x
      else if get_name' w x \<noteq> Undefined then Inr (get_name' w x)
      else (case toString' w x of Inl e \<Rightarrow> Inl e | Inr t \<Rightarrow> Inr (Str t)))"

definition new_ConstructionError' :: "caller \<Rightarrow> jsval \<Rightarrow> exn \<Rightarrow> exn + exn" where
  "new_ConstructionError' w x cause =
     (case reference' w x of
        Inl e \<Rightarrow> Inl e
      | Inr operand \<Rightarrow>
          (case concatenated w operand of
             Inl e \<Rightarrow> Inl e
           | Inr t \<Rightarrow> Inr (ConstructionError (''Error constructing '' @ t) cause)))"

text \<open>The methods of the container, as before but for the calls into caller code.\<close>

definition constructViaProvider' ::
  "(container \<Rightarrow> jsval \<Rightarrow> ((exn + jsval) \<times> container) option) \<Rightarrow> caller \<Rightarrow> container \<Rightarrow> jsval
    \<Rightarrow> ((exn + jsval) \<times> container) option" where
  "constructViaProvider' construct' w s key =
     (case exec (function_code w (Map_get (providers' s) key)) construct' s of
        None \<Rightarrow> None
      | Some (Inl e, s1) \<Rightarrow> Some (Inl e, s1\<lparr>calls' := calls' s1 @ [Provided key (Inl e)]\<rparr>)
      | Some (Inr instance, s1) \<Rightarrow>
          Some (Inr instance, add' (s1\<lparr>calls' := calls' s1 @ [Provided key (Inr instance)]\<rparr>) key instance))"

fun array_map' :: "(container \<Rightarrow> jsval \<Rightarrow> ((exn + jsval) \<times> container) option) \<Rightarrow> container
    \<Rightarrow> jsval list \<Rightarrow> ((exn + jsval list) \<times> container) option" where
  "array_map' f s [] = Some (Inr [], s)"
| "array_map' f s (x # xs) =
     (case f s x of
        None \<Rightarrow> None
      | Some (Inl e, s1) \<Rightarrow> Some (Inl e, s1)
      | Some (Inr v, s1) \<Rightarrow>
          (case array_map' f s1 xs of
             None \<Rightarrow> None
           | Some (Inl e, s2) \<Rightarrow> Some (Inl e, s2)
           | Some (Inr vs, s2) \<Rightarrow> Some (Inr (v # vs), s2)))"

definition instantiate' ::
  "(container \<Rightarrow> jsval \<Rightarrow> ((exn + jsval) \<times> container) option) \<Rightarrow> caller \<Rightarrow> container \<Rightarrow> jsval
    \<Rightarrow> jsval list \<Rightarrow> ((exn + jsval) \<times> container) option" where
  "instantiate' construct' w s object dependencies =
     (case exec (constructor_code w object dependencies) construct' s of
        None \<Rightarrow> None
      | Some (Inl e, s1) \<Rightarrow>
          Some (Inl e, s1\<lparr>calls' := calls' s1 @ [Constructed object dependencies (Inl e)]\<rparr>)
      | Some (Inr None, s1) \<Rightarrow>
          (let instance = Obj (Allocated (allocated' s1));
               s2 = s1\<lparr>allocated' := Suc (allocated' s1),
                       calls' := calls' s1 @ [Constructed object dependencies (Inr instance)]\<rparr>
           in Some (Inr instance, add' s2 object instance))
      | Some (Inr (Some r), s1) \<Rightarrow>
          (let instance = Obj r;
               s2 = s1\<lparr>calls' := calls' s1 @ [Constructed object dependencies (Inr instance)]\<rparr>
           in Some (Inr instance, add' s2 object instance)))"

definition constructViaDependencies' ::
  "(container \<Rightarrow> jsval \<Rightarrow> ((exn + jsval) \<times> container) option) \<Rightarrow> caller \<Rightarrow> container \<Rightarrow> jsval
    \<Rightarrow> ((exn + jsval) \<times> container) option" where
  "constructViaDependencies' construct' w s object =
     (case exec (dependencies_code w object) construct' s of
        None \<Rightarrow> None
      | Some (Inl e, s1) \<Rightarrow> Some (Inl e, s1)
      | Some (Inr ds, s1) \<Rightarrow>
          (case array_map' construct' s1 ds of
             None \<Rightarrow> None
           | Some (Inl e, s2) \<Rightarrow> Some (Inl e, s2)
           | Some (Inr dependencies, s2) \<Rightarrow> instantiate' construct' w s2 object dependencies))"

text \<open>
  The \<^verbatim>\<open>catch\<close> clause: when the constructor of \<^verbatim>\<open>ConstructionError\<close> throws, that is what
  \<^verbatim>\<open>construct\<close> throws.
\<close>

definition try_catch' :: "caller \<Rightarrow> jsval \<Rightarrow> ((exn + jsval) \<times> container) option
    \<Rightarrow> ((exn + jsval) \<times> container) option" where
  "try_catch' w object body =
     (case body of
        None \<Rightarrow> None
      | Some (Inl e, s1) \<Rightarrow>
          (case new_ConstructionError' w object e of
             Inl thrown \<Rightarrow> Some (Inl thrown, s1)
           | Inr error \<Rightarrow> Some (Inl error, s1))
      | Some (Inr v, s1) \<Rightarrow> Some (Inr v, s1))"

fun construct' :: "nat \<Rightarrow> caller \<Rightarrow> container \<Rightarrow> jsval \<Rightarrow> ((exn + jsval) \<times> container) option" where
  "construct' 0 w s object = None"
| "construct' (Suc n) w s object =
     try_catch' w object
       (if Map_has (instances' s) object then Some (Inr (Map_get (instances' s) object), s)
        else if Map_has (providers' s) object then constructViaProvider' (construct' n w) w s object
        else constructViaDependencies' (construct' n w) w s object)"

datatype operation' = Do_add jsval jsval | Do_provide jsval jsval | Do_construct jsval

fun step' :: "nat \<Rightarrow> caller \<Rightarrow> container \<Rightarrow> operation' \<Rightarrow> container option" where
  "step' n w s (Do_add k v) = Some (add' s k v)"
| "step' n w s (Do_provide k fn) = Some (provide' s k fn)"
| "step' n w s (Do_construct k) = map_option snd (construct' n w s k)"

fun run' :: "nat \<Rightarrow> caller \<Rightarrow> container \<Rightarrow> operation' list \<Rightarrow> container option" where
  "run' n w s [] = Some s"
| "run' n w s (x # xs) = (case step' n w s x of None \<Rightarrow> None | Some s1 \<Rightarrow> run' n w s1 xs)"


section \<open>Caller code that does not call back\<close>

text \<open>
  Code that returns or throws at once, and what it returns or throws. Caller code is
  quiet when every \<^verbatim>\<open>dependencies\<close> method, constructor and function is of this kind.
\<close>

fun immediate :: "'a code \<Rightarrow> bool" where
  "immediate (Return a) = True"
| "immediate (Throw e) = True"
| "immediate _ = False"

fun result_of :: "'a code \<Rightarrow> exn + 'a" where
  "result_of (Return a) = Inr a"
| "result_of (Throw e) = Inl e"
| "result_of _ = Inl (TypeError [])"

definition quiet :: "caller \<Rightarrow> bool" where
  "quiet w \<longleftrightarrow>
     (\<forall>r body. dependencies_of w r = Some body \<longrightarrow> immediate body)
     \<and> (\<forall>r args body. constructor_of w r args = Some body \<longrightarrow> immediate body)
     \<and> (\<forall>r body. function_of w r = Some body \<longrightarrow> immediate body)"

text \<open>What the \<^verbatim>\<open>catch\<close> clause throws for the key and the exception it caught.\<close>

definition rethrown :: "caller \<Rightarrow> jsval \<Rightarrow> exn \<Rightarrow> exn" where
  "rethrown w object e =
     (case new_ConstructionError' w object e of Inl thrown \<Rightarrow> thrown | Inr error \<Rightarrow> error)"

text \<open>Blocked keys, as before.\<close>

definition blocked' :: "caller \<Rightarrow> container \<Rightarrow> jsval set \<Rightarrow> jsval set \<Rightarrow> bool" where
  "blocked' w s T X \<longleftrightarrow>
     (\<forall>a\<in>T. instances' s a = None \<and> providers' s a = None \<and>
        (\<exists>ds. result_of (dependencies_code w a) = Inr ds \<and> ((\<exists>b\<in>set ds. b \<in> T) \<or> X \<subseteq> set ds)))"



section \<open>Examples of caller code\<close>

text \<open>
  Plain caller code seen as caller code of the second model, with the functions \<open>fs\<close>
  that can be registered as providers.
\<close>

definition lift_world :: "world \<Rightarrow> (ref \<Rightarrow> jsval code option) \<Rightarrow> caller" where
  "lift_world w fs =
     \<lparr>name_of = (\<lambda>r. case obj_name w r of None \<Rightarrow> Undefined | Some t \<Rightarrow> Str t),
      toString_of = (\<lambda>r. Inr (obj_toString w r)),
      dependencies_of = (\<lambda>r. case obj_dependencies w r of
         None \<Rightarrow> None | Some (Inl e) \<Rightarrow> Some (Throw e) | Some (Inr ds) \<Rightarrow> Some (Return ds)),
      constructor_of = (\<lambda>r args. case obj_new w r args of
         None \<Rightarrow> Some (Return None) | Some e \<Rightarrow> Some (Throw e)),
      function_of = fs\<rparr>"

text \<open>
  A state of the second model seen as a state of the first: a registered function that
  returns or throws at once is the provider with that result.
\<close>

definition as_state :: "world \<Rightarrow> (ref \<Rightarrow> jsval code option) \<Rightarrow> container \<Rightarrow> state" where
  "as_state w fs c =
     \<lparr>instances = instances' c,
      providers = (\<lambda>k. map_option (\<lambda>f _. result_of (function_code (lift_world w fs) f)) (providers' c k)),
      allocated = allocated' c,
      calls = calls' c\<rparr>"

definition hello :: jsval where "hello = Obj (Static 50)"

definition test_caller :: caller where
  "test_caller = lift_world test_world
     (\<lambda>r. if r = Static 50 then Some (Return (Str ''hello, world'')) else None)"

definition empty_container :: container where
  "empty_container = \<lparr>instances' = Map.empty, providers' = Map.empty, allocated' = 0, calls' = []\<rparr>"

text \<open>
  Caller code that is not plain. \<open>Shared\<close> is a class whose constructor returns an object
  that exists already. \<open>thrower\<close> is a function that throws, \<open>steady\<close> one that returns a
  string, and \<open>reenter\<close> one that, the first time it runs (the flag key is registered as
  \<^verbatim>\<open>false\<close>), sets the flag and constructs the key \<open>Token\<close>, for which it is the provider.
  \<open>Whole\<close> is a class that declares the dependency \<open>Part\<close>, and \<open>part_provider\<close> registers
  a temporary value for \<open>Part\<close> and constructs \<open>Whole\<close> before it returns. \<open>Bare\<close> is an
  object without prototype, as \<^verbatim>\<open>Object.create(null)\<close> gives: no \<^verbatim>\<open>name\<close>, no \<^verbatim>\<open>toString\<close>,
  not a constructor. \<open>Named\<close> is a class whose static \<^verbatim>\<open>name\<close> is a symbol and whose
  constructor throws.
\<close>

definition Shared :: jsval where "Shared = Obj (Static 10)"
definition shared_instance :: jsval where "shared_instance = Obj (Static 11)"
definition Flag :: jsval where "Flag = Sym 1 (Some ''flag'')"
definition Token :: jsval where "Token = Sym 2 (Some ''token'')"
definition Part :: jsval where "Part = Sym 3 (Some ''part'')"
definition thrower :: jsval where "thrower = Obj (Static 20)"
definition reenter :: jsval where "reenter = Obj (Static 21)"
definition steady :: jsval where "steady = Obj (Static 22)"
definition Whole :: jsval where "Whole = Obj (Static 30)"
definition part_provider :: jsval where "part_provider = Obj (Static 31)"
definition Bare :: jsval where "Bare = Obj (Static 40)"
definition Named :: jsval where "Named = Obj (Static 41)"

definition callbacks :: caller where
  "callbacks =
     \<lparr>name_of = (\<lambda>r.
         if r = Static 10 then Str ''Shared''
         else if r = Static 30 then Str ''Whole''
         else if r = Static 41 then Sym 9 None
         else Undefined),
      toString_of = (\<lambda>r.
         if r = Static 40 then Inl (TypeError ''x.toString is not a function'')
         else Inr ''[object Object]''),
      dependencies_of = (\<lambda>r. if r = Static 30 then Some (Return [Part]) else None),
      constructor_of = (\<lambda>r args.
         if r = Static 10 then Some (Return (Some (Static 11)))
         else if r = Static 30 then Some (Return None)
         else if r = Static 41 then Some (Throw (Thrown (Str ''boom'')))
         else None),
      function_of = (\<lambda>r.
         if r = Static 20 then Some (Throw (Thrown (Str ''boom'')))
         else if r = Static 21 then
           Some (Call_construct Flag (\<lambda>flag.
             if flag = Inr (Bool False)
             then Call_add Flag (Bool True) (Call_construct Token (\<lambda>_. Return (Str ''v'')))
             else Return (Str ''v'')))
         else if r = Static 22 then Some (Return (Str ''v''))
         else if r = Static 31 then
           Some (Call_add Part (Str ''tmp'') (Call_construct Whole (\<lambda>_. Return (Str ''p''))))
         else None)\<rparr>"

section \<open>Basic facts\<close>

text \<open>
  The three branches of \<^verbatim>\<open>construct\<close>, and the seven ways in which a call can end: one
  for the cache, two for a provider, four for the default construction.
\<close>

lemma construct_cached:
  "instances s k = Some v \<Longrightarrow> construct (Suc n) w s k = Some (Inr v, s)"
  by (simp add: Map_has_def Map_get_def try_catch_def)

lemma construct_provider:
  assumes "instances s k = None" and "providers s k = Some fn"
  shows "construct (Suc n) w s k =
     (case fn () of
        Inl e \<Rightarrow> Some (Inl (new_ConstructionError w k e), s\<lparr>calls := calls s @ [Provided k (Inl e)]\<rparr>)
      | Inr v \<Rightarrow> Some (Inr v, add (s\<lparr>calls := calls s @ [Provided k (Inr v)]\<rparr>) k v))"
  using assms
  by (simp add: Map_has_def try_catch_def constructViaProvider_def Let_def split: sum.splits)

lemma construct_default:
  assumes "instances s k = None" and "providers s k = None"
  shows "construct (Suc n) w s k = try_catch w k (constructViaDependencies (construct n w) w s k)"
  using assms by (simp add: Map_has_def)

declare construct.simps(2) [simp del]

lemma construct_cases [consumes 1, case_names cached provider_throws provider_returns
    dependencies_throws dependency_fails new_throws new_returns]:
  assumes run: "construct n w s k = Some (r, s')"
    and cached: "\<And>m v. n = Suc m \<Longrightarrow> instances s k = Some v \<Longrightarrow> r = Inr v \<Longrightarrow> s' = s \<Longrightarrow> P"
    and provider_throws: "\<And>m fn e. n = Suc m \<Longrightarrow> instances s k = None \<Longrightarrow> providers s k = Some fn \<Longrightarrow>
        fn () = Inl e \<Longrightarrow> r = Inl (new_ConstructionError w k e) \<Longrightarrow>
        s' = s\<lparr>calls := calls s @ [Provided k (Inl e)]\<rparr> \<Longrightarrow> P"
    and provider_returns: "\<And>m fn v. n = Suc m \<Longrightarrow> instances s k = None \<Longrightarrow> providers s k = Some fn \<Longrightarrow>
        fn () = Inr v \<Longrightarrow> r = Inr v \<Longrightarrow>
        s' = add (s\<lparr>calls := calls s @ [Provided k (Inr v)]\<rparr>) k v \<Longrightarrow> P"
    and dependencies_throws: "\<And>m e. n = Suc m \<Longrightarrow> instances s k = None \<Longrightarrow> providers s k = None \<Longrightarrow>
        get_dependencies w k = Inl e \<Longrightarrow> r = Inl (new_ConstructionError w k e) \<Longrightarrow> s' = s \<Longrightarrow> P"
    and dependency_fails: "\<And>m ds e. n = Suc m \<Longrightarrow> instances s k = None \<Longrightarrow> providers s k = None \<Longrightarrow>
        get_dependencies w k = Inr ds \<Longrightarrow> array_map (construct m w) s ds = Some (Inl e, s') \<Longrightarrow>
        r = Inl (new_ConstructionError w k e) \<Longrightarrow> P"
    and new_throws: "\<And>m ds args s1 e. n = Suc m \<Longrightarrow> instances s k = None \<Longrightarrow> providers s k = None \<Longrightarrow>
        get_dependencies w k = Inr ds \<Longrightarrow> array_map (construct m w) s ds = Some (Inr args, s1) \<Longrightarrow>
        js_new w k args = Some e \<Longrightarrow> r = Inl (new_ConstructionError w k e) \<Longrightarrow>
        s' = s1\<lparr>calls := calls s1 @ [Constructed k args (Inl e)]\<rparr> \<Longrightarrow> P"
    and new_returns: "\<And>m ds args s1. n = Suc m \<Longrightarrow> instances s k = None \<Longrightarrow> providers s k = None \<Longrightarrow>
        get_dependencies w k = Inr ds \<Longrightarrow> array_map (construct m w) s ds = Some (Inr args, s1) \<Longrightarrow>
        js_new w k args = None \<Longrightarrow> r = Inr (Obj (Allocated (allocated s1))) \<Longrightarrow>
        s' = add (s1\<lparr>allocated := Suc (allocated s1),
                   calls := calls s1 @ [Constructed k args (Inr (Obj (Allocated (allocated s1))))]\<rparr>)
               k (Obj (Allocated (allocated s1))) \<Longrightarrow> P"
  shows P
proof (cases n)
  case 0
  with run show ?thesis by simp
next
  case (Suc m)
  show ?thesis
  proof (cases "instances s k")
    case (Some v)
    from run Suc construct_cached [OF Some, of m w] have "r = Inr v" and "s' = s" by simp_all
    with Suc Some show ?thesis by (rule cached)
  next
    case None
    note uncached = this
    show ?thesis
    proof (cases "providers s k")
      case (Some fn)
      show ?thesis
      proof (cases "fn ()")
        case (Inl e)
        from construct_provider [OF uncached Some, of m w] Inl
        have "construct (Suc m) w s k =
            Some (Inl (new_ConstructionError w k e), s\<lparr>calls := calls s @ [Provided k (Inl e)]\<rparr>)"
          by simp
        with run Suc have "r = Inl (new_ConstructionError w k e)"
          and "s' = s\<lparr>calls := calls s @ [Provided k (Inl e)]\<rparr>" by auto
        with Suc uncached Some Inl show ?thesis by (rule provider_throws)
      next
        case (Inr v)
        from construct_provider [OF uncached Some, of m w] Inr
        have "construct (Suc m) w s k =
            Some (Inr v, add (s\<lparr>calls := calls s @ [Provided k (Inr v)]\<rparr>) k v)"
          by simp
        with run Suc have "r = Inr v"
          and "s' = add (s\<lparr>calls := calls s @ [Provided k (Inr v)]\<rparr>) k v" by auto
        with Suc uncached Some Inr show ?thesis by (rule provider_returns)
      qed
    next
      case None
      note noprov = this
      from run Suc uncached noprov
      have body: "try_catch w k (constructViaDependencies (construct m w) w s k) = Some (r, s')"
        using construct_default [OF uncached noprov, of m w] by simp
      show ?thesis
      proof (cases "get_dependencies w k")
        case (Inl e)
        with body have "r = Inl (new_ConstructionError w k e)" and "s' = s"
          by (auto simp: try_catch_def constructViaDependencies_def)
        with Suc uncached noprov Inl show ?thesis by (rule dependencies_throws)
      next
        case (Inr ds)
        note deps = this
        from body deps obtain r1 s1 where am: "array_map (construct m w) s ds = Some (r1, s1)"
          by (auto simp: try_catch_def constructViaDependencies_def split: option.splits)
        show ?thesis
        proof (cases r1)
          case (Inl e)
          with body deps am have "r = Inl (new_ConstructionError w k e)" and "s1 = s'"
            by (auto simp: try_catch_def constructViaDependencies_def)
          with Suc uncached noprov deps am Inl show ?thesis
            using dependency_fails [of m ds e] by simp
        next
          case (Inr args)
          note ok = this
          show ?thesis
          proof (cases "js_new w k args")
            case (Some e)
            with body deps am ok have "r = Inl (new_ConstructionError w k e)"
              and "s' = s1\<lparr>calls := calls s1 @ [Constructed k args (Inl e)]\<rparr>"
              by (auto simp: try_catch_def constructViaDependencies_def instantiate_def)
            with Suc uncached noprov deps am ok Some show ?thesis
              using new_throws [of m ds args s1 e] by simp
          next
            case None
            with body deps am ok have "r = Inr (Obj (Allocated (allocated s1)))"
              and "s' = add (s1\<lparr>allocated := Suc (allocated s1),
                   calls := calls s1 @ [Constructed k args (Inr (Obj (Allocated (allocated s1))))]\<rparr>)
               k (Obj (Allocated (allocated s1)))"
              by (auto simp: try_catch_def constructViaDependencies_def instantiate_def Let_def)
            with Suc uncached noprov deps am ok None show ?thesis
              using new_returns [of m ds args s1] by simp
          qed
        qed
      qed
    qed
  qed
qed

section \<open>What every call preserves\<close>

text \<open>
  A relation between states that is reflexive and transitive and is kept by appending to
  the log, by allocating and by \<^verbatim>\<open>add\<close> holds between the state before and
  after a call. So the provider registry is unchanged, the keys of the cache and the number
  of allocated objects only grow, and the log is only extended.
\<close>

lemma array_map_rel:
  assumes step: "\<And>s x r s'. f s x = Some (r, s') \<Longrightarrow> R s s'"
    and refl: "\<And>s. R s s"
    and trans: "\<And>a b c. R a b \<Longrightarrow> R b c \<Longrightarrow> R a c"
  shows "array_map f s xs = Some (r, s') \<Longrightarrow> R s s'"
proof (induction xs arbitrary: s r s')
  case Nil
  then show ?case by (simp add: refl)
next
  case (Cons x xs)
  from Cons.prems obtain r1 s1 where f: "f s x = Some (r1, s1)"
    by (auto split: option.splits)
  have R1: "R s s1" using step [OF f] .
  show ?case
  proof (cases r1)
    case (Inl e)
    with Cons.prems f have "s' = s1" by simp
    with R1 show ?thesis by simp
  next
    case (Inr v)
    with Cons.prems f obtain r2 where "array_map f s1 xs = Some (r2, s')"
      by (auto split: option.splits sum.splits)
    from Cons.IH [OF this] R1 show ?thesis by (rule trans [rotated])
  qed
qed

lemma construct_rel:
  assumes refl: "\<And>s. R s s"
    and trans: "\<And>a b c. R a b \<Longrightarrow> R b c \<Longrightarrow> R a c"
    and log: "\<And>s e. R s (s\<lparr>calls := calls s @ [e]\<rparr>)"
    and alloc: "\<And>s. R s (s\<lparr>allocated := Suc (allocated s)\<rparr>)"
    and add: "\<And>s k v. R s (add s k v)"
  shows "construct n w s k = Some (r, s') \<Longrightarrow> R s s'"
proof (induction n arbitrary: s k r s')
  case 0
  then show ?case by simp
next
  case (Suc n)
  have am: "R a b" if "array_map (construct n w) a ds = Some (r1, b)" for a b ds r1
    by (rule array_map_rel [where f = "construct n w" and R = R, OF Suc.IH refl trans that])
  from Suc.prems show ?case
  proof (cases rule: construct_cases)
    case (cached m v)
    then show ?thesis by (simp add: refl)
  next
    case (provider_throws m fn e)
    then show ?thesis by (simp add: log)
  next
    case (provider_returns m fn v)
    show ?thesis unfolding provider_returns by (rule trans [OF log add])
  next
    case (dependencies_throws m e)
    then show ?thesis by (simp add: refl)
  next
    case (dependency_fails m ds e)
    then show ?thesis using am by simp
  next
    case (new_throws m ds args s1 e)
    then have "R s s1" using am by simp
    then show ?thesis unfolding new_throws by (rule trans [OF _ log])
  next
    case (new_returns m ds args s1)
    then have 1: "R s s1" using am by simp
    have 2: "R s1 (s1\<lparr>allocated := Suc (allocated s1)\<rparr>)" by (rule alloc)
    have 3: "R (s1\<lparr>allocated := Suc (allocated s1)\<rparr>)
        (s1\<lparr>allocated := Suc (allocated s1),
            calls := calls s1 @ [Constructed k args (Inr (Obj (Allocated (allocated s1))))]\<rparr>)"
      using log [of "s1\<lparr>allocated := Suc (allocated s1)\<rparr>"] by simp
    show ?thesis unfolding new_returns(8)
      by (rule trans [OF 1 trans [OF 2 trans [OF 3 add]]])
  qed
qed

lemma construct_providers:
  "construct n w s k = Some (r, s') \<Longrightarrow> providers s' = providers s"
  by (rule construct_rel [where R = "\<lambda>a b. providers b = providers a"]) (simp_all add: add_def)

lemma construct_dom_instances:
  "construct n w s k = Some (r, s') \<Longrightarrow> dom (instances s) \<subseteq> dom (instances s')"
  by (rule construct_rel [where R = "\<lambda>a b. dom (instances a) \<subseteq> dom (instances b)"])
     (auto simp: add_def)

lemma construct_allocated:
  "construct n w s k = Some (r, s') \<Longrightarrow> allocated s \<le> allocated s'"
  by (rule construct_rel [where R = "\<lambda>a b. allocated a \<le> allocated b"]) (simp_all add: add_def)

lemma construct_calls:
  "construct n w s k = Some (r, s') \<Longrightarrow> \<exists>es. calls s' = calls s @ es"
  by (rule construct_rel [where R = "\<lambda>a b. \<exists>es. calls b = calls a @ es"]) (auto simp: add_def)

lemma array_map_providers:
  "array_map (construct n w) s xs = Some (r, s') \<Longrightarrow> providers s' = providers s"
  by (rule array_map_rel [where f = "construct n w" and R = "\<lambda>a b. providers b = providers a"])
     (simp_all add: construct_providers)

lemma array_map_dom_instances:
  "array_map (construct n w) s xs = Some (r, s') \<Longrightarrow> dom (instances s) \<subseteq> dom (instances s')"
  by (rule array_map_rel [where f = "construct n w"
        and R = "\<lambda>a b. dom (instances a) \<subseteq> dom (instances b)"])
     (auto dest: construct_dom_instances)

lemma array_map_calls:
  "array_map (construct n w) s xs = Some (r, s') \<Longrightarrow> \<exists>es. calls s' = calls s @ es"
  by (rule array_map_rel [where f = "construct n w" and R = "\<lambda>a b. \<exists>es. calls b = calls a @ es"])
     (auto dest: construct_calls)

section \<open>A key is not cached while its dependencies are resolved\<close>

text \<open>
  This holds on every dependency graph, cyclic ones included: a call for a blocked key
  that returns has thrown, and no call puts a blocked key in the cache.
\<close>

lemma blocked_mono:
  assumes "blocked w s T X" and "Y \<subseteq> X"
    and "\<forall>a\<in>T. instances s' a = None" and "providers s' = providers s"
  shows "blocked w s' T Y"
  using assms unfolding blocked_def by (metis subset_trans)

lemma array_map_blocked:
  assumes f_blocked: "\<And>s x r s' T. f s x = Some (r, s') \<Longrightarrow> blocked w s T {x} \<Longrightarrow>
        (\<forall>a\<in>T. instances s' a = None) \<and> (x \<in> T \<longrightarrow> isl r)"
    and f_providers: "\<And>s x r s'. f s x = Some (r, s') \<Longrightarrow> providers s' = providers s"
  shows "array_map f s xs = Some (r1, s1) \<Longrightarrow> blocked w s T (set xs) \<Longrightarrow>
        (\<forall>a\<in>T. instances s1 a = None) \<and> ((\<exists>x\<in>set xs. x \<in> T) \<longrightarrow> isl r1)"
proof (induction xs arbitrary: s r1 s1)
  case Nil
  then show ?case by (simp add: blocked_def)
next
  case (Cons x xs)
  from Cons.prems(1) obtain r0 s0 where f: "f s x = Some (r0, s0)"
    by (auto split: option.splits)
  have "blocked w s T {x}"
    using Cons.prems(2) by (rule blocked_mono) (use Cons.prems(2) in \<open>simp_all add: blocked_def\<close>)
  from f_blocked [OF f this]
  have keep0: "\<forall>a\<in>T. instances s0 a = None" and fail0: "x \<in> T \<longrightarrow> isl r0" by simp_all
  have prov0: "providers s0 = providers s" using f by (rule f_providers)
  show ?case
  proof (cases r0)
    case (Inl e)
    with Cons.prems(1) f have "r1 = Inl e" and "s1 = s0" by simp_all
    with keep0 show ?thesis by simp
  next
    case (Inr v)
    with fail0 have x: "x \<notin> T" by auto
    from Inr Cons.prems(1) f obtain r2 where
      rest: "array_map f s0 xs = Some (r2, s1)" and r1: "isl r1 = isl r2"
      by (auto split: option.splits sum.splits)
    have "blocked w s0 T (set xs)"
      using Cons.prems(2) _ keep0 prov0 by (rule blocked_mono) auto
    from Cons.IH [OF rest this] x r1 show ?thesis by auto
  qed
qed

lemma construct_blocked:
  "construct n w s j = Some (r, s') \<Longrightarrow> blocked w s T {j} \<Longrightarrow>
     (\<forall>a\<in>T. instances s' a = None) \<and> (j \<in> T \<longrightarrow> isl r)"
proof (induction n arbitrary: s j r s' T)
  case 0
  then show ?case by simp
next
  case (Suc n)
  note blk = Suc.prems(2)
  have keep: "\<forall>a\<in>T. instances s a = None" using blk by (simp add: blocked_def)
  have noprov: "\<forall>a\<in>T. providers s a = None" using blk by (simp add: blocked_def)
  have deps: "(\<forall>a\<in>insert j T. instances s1 a = None) \<and> ((\<exists>x\<in>set ds. x \<in> insert j T) \<longrightarrow> isl r1)"
    if "instances s j = None" "providers s j = None" "get_dependencies w j = Inr ds"
      "array_map (construct n w) s ds = Some (r1, s1)" for ds r1 s1
  proof -
    have "blocked w s (insert j T) (set ds)"
      using blk that(1-3) unfolding blocked_def by auto
    show ?thesis
    proof (rule array_map_blocked [where f = "construct n w" and w = w])
      show "array_map (construct n w) s ds = Some (r1, s1)" by fact
      show "blocked w s (insert j T) (set ds)" by fact
      show "providers b = providers a" if "construct n w a x = Some (r, b)" for a x r b
        using that by (rule construct_providers)
      show "(\<forall>a\<in>U. instances b a = None) \<and> (x \<in> U \<longrightarrow> isl r)"
        if "construct n w a x = Some (r, b)" and "blocked w a U {x}" for a x r b U
        using that by (rule Suc.IH)
    qed
  qed
  from Suc.prems(1) show ?case
  proof (cases rule: construct_cases)
    case (cached m v)
    with keep show ?thesis by auto
  next
    case (provider_throws m fn e)
    with keep show ?thesis by simp
  next
    case (provider_returns m fn v)
    with noprov have "j \<notin> T" by auto
    with keep provider_returns show ?thesis by (auto simp: add_def)
  next
    case (dependencies_throws m e)
    with keep show ?thesis by simp
  next
    case (dependency_fails m ds e)
    with deps [of ds "Inl e" s'] show ?thesis by simp
  next
    case (new_throws m ds args s1 e)
    with deps [of ds "Inr args" s1] show ?thesis by simp
  next
    case (new_returns m ds args s1)
    with deps [of ds "Inr args" s1]
    have keep1: "\<forall>a\<in>insert j T. instances s1 a = None"
      and none: "\<forall>x\<in>set ds. x \<notin> insert j T" by auto
    have "j \<notin> T"
    proof
      assume "j \<in> T"
      with blk obtain ds' where "get_dependencies w j = Inr ds'"
        and "(\<exists>b\<in>set ds'. b \<in> T) \<or> {j} \<subseteq> set ds'"
        unfolding blocked_def by blast
      with new_returns(4) have "(\<exists>b\<in>set ds. b \<in> T) \<or> {j} \<subseteq> set ds"
        by simp
      with none show False by auto
    qed
    with keep1 show ?thesis unfolding new_returns(8) by (auto simp: add_def)
  qed
qed

lemma dependencies_keep_uncached:
  assumes "instances s k = None" and "providers s k = None"
    and "get_dependencies w k = Inr ds"
    and "array_map (construct n w) s ds = Some (r1, s1)"
  shows "instances s1 k = None"
proof -
  have "blocked w s {k} (set ds)" using assms(1-3) by (simp add: blocked_def)
  have "(\<forall>a\<in>{k}. instances s1 a = None) \<and> ((\<exists>x\<in>set ds. x \<in> {k}) \<longrightarrow> isl r1)"
  proof (rule array_map_blocked [where f = "construct n w" and w = w])
    show "array_map (construct n w) s ds = Some (r1, s1)" by fact
    show "blocked w s {k} (set ds)" by fact
    show "providers b = providers a" if "construct n w a x = Some (r, b)" for a x r b
      using that by (rule construct_providers)
    show "(\<forall>a\<in>U. instances b a = None) \<and> (x \<in> U \<longrightarrow> isl r)"
      if "construct n w a x = Some (r, b)" and "blocked w a U {x}" for a x r b U
      using that by (rule construct_blocked)
  qed
  then show ?thesis by simp
qed

section \<open>Evaluating the examples\<close>

lemmas test_defs = empty_state_def NoDependencies_def HasDefaults_def DefaultsAndDependencies_def
  Broken_def NeedsBroken_def plain_object_def Outer_def Diamond_def test_world_def

lemmas eval_defs = construct.simps(2) try_catch_def Map_has_def Map_get_def
  constructViaProvider_def constructViaDependencies_def instantiate_def add_def provide_def
  new_ConstructionError_def reference_def Let_def

section \<open>The steps of a call\<close>

text \<open>
  Every call is a sequence of four kinds of steps, each for a key that is not cached at
  that moment: a provider or a constructor throws (only the log grows), or it returns
  (the log grows and the key enters the cache).
\<close>

lemma construct_steps [consumes 1, case_names refl trans provider_throws new_throws provider_returns new_returns]:
  assumes run: "construct n w s k = Some (r, s')"
    and refl: "\<And>s. R s s"
    and trans: "\<And>a b c. R a b \<Longrightarrow> R b c \<Longrightarrow> R a c"
    and provider_throws: "\<And>s k fn e. instances s k = None \<Longrightarrow> providers s k = Some fn \<Longrightarrow> fn () = Inl e \<Longrightarrow>
        R s (s\<lparr>calls := calls s @ [Provided k (Inl e)]\<rparr>)"
    and new_throws: "\<And>s k args e. instances s k = None \<Longrightarrow> providers s k = None \<Longrightarrow>
        js_new w k args = Some e \<Longrightarrow> R s (s\<lparr>calls := calls s @ [Constructed k args (Inl e)]\<rparr>)"
    and provider_returns: "\<And>s k fn v. instances s k = None \<Longrightarrow> providers s k = Some fn \<Longrightarrow> fn () = Inr v \<Longrightarrow>
        R s (add (s\<lparr>calls := calls s @ [Provided k (Inr v)]\<rparr>) k v)"
    and new_returns: "\<And>s k args. instances s k = None \<Longrightarrow> providers s k = None \<Longrightarrow>
        js_new w k args = None \<Longrightarrow>
        R s (add (s\<lparr>allocated := Suc (allocated s),
                    calls := calls s @ [Constructed k args (Inr (Obj (Allocated (allocated s))))]\<rparr>)
               k (Obj (Allocated (allocated s))))"
  shows "R s s'"
  using run
proof (induction n arbitrary: s k r s')
  case 0
  then show ?case by simp
next
  case (Suc n)
  have am: "R a b" if "array_map (construct n w) a ds = Some (r1, b)" for a b ds r1
    by (rule array_map_rel [where f = "construct n w" and R = R, OF Suc.IH refl trans that])
  from Suc.prems show ?case
  proof (cases rule: construct_cases)
    case (cached m v)
    then show ?thesis by (simp add: refl)
  next
    case (provider_throws m fn e)
    then show ?thesis using assms(4) by simp
  next
    case (provider_returns m fn v)
    then show ?thesis using assms(6) by simp
  next
    case (dependencies_throws m e)
    then show ?thesis by (simp add: refl)
  next
    case (dependency_fails m ds e)
    then show ?thesis using am by simp
  next
    case (new_throws m ds args s1 e)
    then have 1: "R s s1" using am by simp
    from new_throws have "instances s1 k = None" and "providers s1 = providers s"
      by (auto intro: dependencies_keep_uncached array_map_providers)
    with new_throws have "R s1 s'" using assms(5) [of s1 k args e] by simp
    with 1 show ?thesis by (rule trans)
  next
    case (new_returns m ds args s1)
    then have 1: "R s s1" using am by simp
    from new_returns have "instances s1 k = None" and "providers s1 = providers s"
      by (auto intro: dependencies_keep_uncached array_map_providers)
    with new_returns have "R s1 s'" using assms(7) [of s1 k args] by simp
    with 1 show ?thesis by (rule trans)
  qed
qed

lemma construct_instances_le:
  assumes "construct n w s k = Some (r, s')"
  shows "instances s \<subseteq>\<^sub>m instances s'"
  using assms
proof (induction rule: construct_steps [where R = "\<lambda>a b. instances a \<subseteq>\<^sub>m instances b"])
  case (trans a b c)
  then show ?case by (rule map_le_trans)
qed (auto simp: add_def map_le_def)

lemma array_map_instances_le:
  "array_map (construct n w) s xs = Some (r, s') \<Longrightarrow> instances s \<subseteq>\<^sub>m instances s'"
  by (rule array_map_rel [where f = "construct n w" and R = "\<lambda>a b. instances a \<subseteq>\<^sub>m instances b"])
     (auto dest: construct_instances_le intro: map_le_trans)

lemma construct_result_cached:
  assumes "construct n w s k = Some (Inr v, s')"
  shows "instances s' k = Some v"
  using assms by (cases rule: construct_cases) (simp_all add: add_def)

lemma run_cached:
  "instances s k = Some v \<Longrightarrow> run (Suc n) w s (replicate j (Construct k)) = Some s"
  by (induction j) (simp_all add: construct_cached)

section \<open>Resolving the dependencies one after the other\<close>

lemma array_map_values:
  assumes "array_map f s xs = Some (Inr vs, s')"
  shows "\<exists>ss. length ss = Suc (length xs) \<and> length vs = length xs \<and> ss ! 0 = s \<and> ss ! length xs = s'
    \<and> (\<forall>i<length xs. f (ss ! i) (xs ! i) = Some (Inr (vs ! i), ss ! Suc i))"
  using assms
proof (induction xs arbitrary: s vs)
  case Nil
  then have "length [s] = Suc (length ([] :: jsval list)) \<and> length vs = length ([] :: jsval list)
      \<and> [s] ! 0 = s \<and> [s] ! length ([] :: jsval list) = s'" by simp
  then show ?case by (intro exI [of _ "[s]"]) simp
next
  case (Cons x xs)
  from Cons.prems obtain v s1 vs' where
    head: "f s x = Some (Inr v, s1)" and rest: "array_map f s1 xs = Some (Inr vs', s')"
    and vs: "vs = v # vs'"
    by (auto split: option.splits sum.splits)
  from Cons.IH [OF rest] obtain ss where
    ss: "length ss = Suc (length xs)" "length vs' = length xs" "ss ! 0 = s1" "ss ! length xs = s'"
    and calls: "\<forall>i<length xs. f (ss ! i) (xs ! i) = Some (Inr (vs' ! i), ss ! Suc i)"
    by blast
  have "\<forall>i<length (x # xs). f ((s # ss) ! i) ((x # xs) ! i) = Some (Inr (vs ! i), (s # ss) ! Suc i)"
  proof (intro allI impI)
    fix i assume "i < length (x # xs)"
    then show "f ((s # ss) ! i) ((x # xs) ! i) = Some (Inr (vs ! i), (s # ss) ! Suc i)"
      using head ss(3) calls vs by (cases i) simp_all
  qed
  moreover have "length (s # ss) = Suc (length (x # xs))" "length vs = length (x # xs)"
    "(s # ss) ! 0 = s" "(s # ss) ! length (x # xs) = s'"
    using ss vs by simp_all
  ultimately show ?case by blast
qed

lemma array_map_of_values:
  assumes "length ss = Suc (length xs)" and "length vs = length xs"
    and "\<forall>i<length xs. f (ss ! i) (xs ! i) = Some (Inr (vs ! i), ss ! Suc i)"
  shows "array_map f (ss ! 0) xs = Some (Inr vs, ss ! length xs)"
  using assms
proof (induction xs arbitrary: ss vs)
  case Nil
  then show ?case by simp
next
  case (Cons x xs)
  from Cons.prems(1) obtain s ss' where ss: "ss = s # ss'" by (cases ss) auto
  from Cons.prems(2) obtain v vs' where vs: "vs = v # vs'" by (cases vs) auto
  from Cons.prems(3) have head: "f s x = Some (Inr v, ss' ! 0)"
    unfolding ss vs by (auto dest: spec [of _ 0])
  have "\<forall>i<length xs. f (ss' ! i) (xs ! i) = Some (Inr (vs' ! i), ss' ! Suc i)"
  proof (intro allI impI)
    fix i assume "i < length xs"
    then have "Suc i < length (x # xs)" by simp
    with Cons.prems(3) have "f (ss ! Suc i) ((x # xs) ! Suc i) = Some (Inr (vs ! Suc i), ss ! Suc (Suc i))"
      by blast
    then show "f (ss' ! i) (xs ! i) = Some (Inr (vs' ! i), ss' ! Suc i)"
      by (simp add: ss vs)
  qed
  with Cons.prems(1,2) have "array_map f (ss' ! 0) xs = Some (Inr vs', ss' ! length xs)"
    by (intro Cons.IH) (simp_all add: ss vs)
  with head show ?case by (simp add: ss vs)
qed

lemma array_map_failure:
  assumes "array_map f s xs = Some (Inl e, s')"
  shows "\<exists>i<length xs. \<exists>vs s1. array_map f s (take i xs) = Some (Inr vs, s1)
      \<and> f s1 (xs ! i) = Some (Inl e, s')"
  using assms
proof (induction xs arbitrary: s)
  case Nil
  then show ?case by simp
next
  case (Cons x xs)
  from Cons.prems obtain r0 s0 where f: "f s x = Some (r0, s0)"
    by (auto split: option.splits)
  show ?case
  proof (cases r0)
    case (Inl e0)
    with Cons.prems f have "f s ((x # xs) ! 0) = Some (Inl e, s')" by simp
    moreover have "array_map f s (take 0 (x # xs)) = Some (Inr [], s)" by simp
    ultimately show ?thesis by blast
  next
    case (Inr v)
    with Cons.prems f have "array_map f s0 xs = Some (Inl e, s')"
      by (auto split: option.splits sum.splits)
    from Cons.IH [OF this] obtain i vs s1 where i: "i < length xs"
      and pre: "array_map f s0 (take i xs) = Some (Inr vs, s1)"
      and fail: "f s1 (xs ! i) = Some (Inl e, s')" by blast
    from pre f Inr have "array_map f s (take (Suc i) (x # xs)) = Some (Inr (v # vs), s1)" by simp
    moreover from fail have "f s1 ((x # xs) ! Suc i) = Some (Inl e, s')" by simp
    moreover from i have "Suc i < length (x # xs)" by simp
    ultimately show ?thesis by blast
  qed
qed

lemma array_map_mono:
  assumes "\<And>s x y. f s x = Some y \<Longrightarrow> g s x = Some y"
  shows "array_map f s xs = Some y \<Longrightarrow> array_map g s xs = Some y"
proof (induction xs arbitrary: s y)
  case Nil
  then show ?case by simp
next
  case (Cons x xs)
  from Cons.prems obtain r0 s0 where f: "f s x = Some (r0, s0)"
    by (auto split: option.splits)
  then have g: "g s x = Some (r0, s0)" by (rule assms)
  show ?case
  proof (cases r0)
    case (Inl e)
    with Cons.prems f g show ?thesis by simp
  next
    case (Inr v)
    with Cons.prems f obtain y1 where rest: "array_map f s0 xs = Some y1"
      by (auto split: option.splits)
    from Cons.IH [OF rest] have "array_map g s0 xs = Some y1" .
    with Cons.prems f g Inr rest show ?thesis by simp
  qed
qed

section \<open>The bound on the recursion\<close>

text \<open>
  A call that returns under one bound returns the same under every larger bound, and on
  a dependency graph without cycles a call returns.
\<close>

lemma construct_fuel_Suc:
  "construct n w s k = Some y \<Longrightarrow> construct (Suc n) w s k = Some y"
proof (induction n arbitrary: s k y)
  case 0
  then show ?case by simp
next
  case (Suc n)
  have am: "array_map (construct (Suc n) w) a ds = Some z"
    if "array_map (construct n w) a ds = Some z" for a ds z
    using Suc.IH that by (rule array_map_mono)
  show ?case
  proof (cases "instances s k \<noteq> None \<or> providers s k \<noteq> None")
    case True
    with Suc.prems show ?thesis
      by (auto simp: construct.simps(2) Map_has_def)
  next
    case False
    then have u: "instances s k = None" "providers s k = None" by simp_all
    from Suc.prems have body: "try_catch w k (constructViaDependencies (construct n w) w s k) = Some y"
      by (simp add: construct_default [OF u])
    have "constructViaDependencies (construct (Suc n) w) w s k
        = constructViaDependencies (construct n w) w s k"
    proof (cases "get_dependencies w k")
      case (Inl e)
      then show ?thesis by (simp add: constructViaDependencies_def)
    next
      case (Inr ds)
      with body obtain z where "array_map (construct n w) s ds = Some z"
        by (auto simp: try_catch_def constructViaDependencies_def split: option.splits)
      with am [OF this] Inr show ?thesis by (simp add: constructViaDependencies_def)
    qed
    with body show ?thesis by (simp add: construct_default [OF u])
  qed
qed

lemma construct_fuel:
  "construct n w s k = Some y \<Longrightarrow> n \<le> m \<Longrightarrow> construct m w s k = Some y"
  by (induction m) (auto simp: le_Suc_eq construct_fuel_Suc)

lemma array_map_total:
  assumes "\<And>s x. x \<in> set xs \<Longrightarrow> f s x \<noteq> None"
  shows "array_map f s xs \<noteq> None"
  using assms
proof (induction xs arbitrary: s)
  case Nil
  then show ?case by simp
next
  case (Cons x xs)
  then obtain r0 s0 where f: "f s x = Some (r0, s0)" by fastforce
  from Cons have "array_map f s0 xs \<noteq> None" by simp
  with f show ?case by (auto split: sum.splits)
qed

lemma construct_terminates:
  assumes acyclic: "\<And>k ds d. get_dependencies w k = Inr ds \<Longrightarrow> d \<in> set ds \<Longrightarrow> rank d < rank k"
  shows "construct (Suc (rank k)) w s k \<noteq> None"
proof (induction "rank k" arbitrary: k s rule: less_induct)
  case less
  show ?case
  proof (cases "instances s k \<noteq> None \<or> providers s k \<noteq> None")
    case True
    then show ?thesis
      by (auto simp: construct.simps(2) Map_has_def try_catch_def split: prod.splits sum.splits)
  next
    case False
    then have u: "instances s k = None" "providers s k = None" by simp_all
    show ?thesis
    proof (cases "get_dependencies w k")
      case (Inl e)
      then show ?thesis
        by (simp add: construct_default [OF u] try_catch_def constructViaDependencies_def)
    next
      case (Inr ds)
      have "array_map (construct (rank k) w) s ds \<noteq> None"
      proof (rule array_map_total)
        fix a d assume d: "d \<in> set ds"
        with Inr have lt: "rank d < rank k" by (rule acyclic)
        then obtain y where "construct (Suc (rank d)) w a d = Some y"
          using less [of d a] by auto
        then have "construct (rank k) w a d = Some y"
          by (rule construct_fuel) (use lt in simp)
        then show "construct (rank k) w a d \<noteq> None" by simp
      qed
      with Inr show ?thesis
        by (auto simp: construct_default [OF u] try_catch_def constructViaDependencies_def
            split: prod.splits sum.splits)
    qed
  qed
qed

lemma instantiate_calls:
  "\<exists>outcome. calls (snd (instantiate w s k vs)) = calls s @ [Constructed k vs outcome]
     \<and> fst (instantiate w s k vs) = outcome"
  by (simp add: instantiate_def add_def Let_def split: option.splits)

section \<open>The value of a provider\<close>

lemma array_map_hoare:
  assumes inv: "I s" and run: "array_map f s xs = Some (r, s')"
    and step: "\<And>s x r s'. I s \<Longrightarrow> f s x = Some (r, s') \<Longrightarrow>
      I s' \<and> (\<exists>es. calls s' = calls s @ es \<and> (\<forall>e\<in>set es. E e)) \<and> (\<forall>v. r = Inr v \<longrightarrow> Q x v)"
  shows "I s' \<and> (\<exists>es. calls s' = calls s @ es \<and> (\<forall>e\<in>set es. E e))
      \<and> (\<forall>vs. r = Inr vs \<longrightarrow> length vs = length xs \<and> (\<forall>i<length xs. Q (xs ! i) (vs ! i)))"
  using inv run
proof (induction xs arbitrary: s r)
  case Nil
  then show ?case by auto
next
  case (Cons x xs)
  from Cons.prems(2) obtain r0 s0 where f: "f s x = Some (r0, s0)"
    by (auto split: option.splits)
  from step [OF Cons.prems(1) f] obtain es0 where I0: "I s0"
    and es0: "calls s0 = calls s @ es0" "\<forall>e\<in>set es0. E e"
    and Q0: "\<forall>v. r0 = Inr v \<longrightarrow> Q x v" by blast
  show ?case
  proof (cases r0)
    case (Inl e)
    with Cons.prems(2) f have "r = Inl e" "s' = s0" by simp_all
    with I0 es0 show ?thesis by auto
  next
    case (Inr v)
    with Cons.prems(2) f obtain r1 where rest: "array_map f s0 xs = Some (r1, s')"
      and r: "r = (case r1 of Inl e \<Rightarrow> Inl e | Inr vs \<Rightarrow> Inr (v # vs))"
      by (auto split: option.splits sum.splits)
    from Cons.IH [OF I0 rest] obtain es1 where I1: "I s'"
      and es1: "calls s' = calls s0 @ es1" "\<forall>e\<in>set es1. E e"
      and Q1: "\<forall>vs. r1 = Inr vs \<longrightarrow> length vs = length xs \<and> (\<forall>i<length xs. Q (xs ! i) (vs ! i))"
      by blast
    have "calls s' = calls s @ (es0 @ es1)" "\<forall>e\<in>set (es0 @ es1). E e"
      using es0 es1 by auto
    moreover have "\<forall>vs. r = Inr vs \<longrightarrow> length vs = length (x # xs)
        \<and> (\<forall>i<length (x # xs). Q ((x # xs) ! i) (vs ! i))"
    proof (intro allI impI)
      fix vs assume "r = Inr vs"
      with r obtain vs1 where r1: "r1 = Inr vs1" and vs: "vs = v # vs1"
        by (cases r1) auto
      from Q1 r1 have len: "length vs1 = length xs" and q: "\<forall>i<length xs. Q (xs ! i) (vs1 ! i)"
        by simp_all
      have "Q ((x # xs) ! i) (vs ! i)" if "i < length (x # xs)" for i
        using that q Q0 Inr vs by (cases i) simp_all
      with len vs show "length vs = length (x # xs) \<and> (\<forall>i<length (x # xs). Q ((x # xs) ! i) (vs ! i))"
        by simp
    qed
    ultimately show ?thesis using I1 by blast
  qed
qed

lemma provider_value:
  assumes fn: "fn () = Inr v"
  shows "construct n w t j = Some (r, t') \<Longrightarrow>
     providers t k = Some fn \<and> (instances t k = None \<or> instances t k = Some v) \<Longrightarrow>
     (providers t' k = Some fn \<and> (instances t' k = None \<or> instances t' k = Some v))
     \<and> (\<exists>es. calls t' = calls t @ es \<and> (\<forall>e\<in>set es. receives w k v e))
     \<and> (\<forall>u. r = Inr u \<longrightarrow> j = k \<longrightarrow> u = v)"
proof (induction n arbitrary: t j r t')
  case 0
  then show ?case by simp
next
  case (Suc n)
  let ?I = "\<lambda>t. providers t k = Some fn \<and> (instances t k = None \<or> instances t k = Some v)"
  note I = Suc.prems(2)
  have deps: "?I t1 \<and> (\<exists>es. calls t1 = calls t @ es \<and> (\<forall>e\<in>set es. receives w k v e))
      \<and> (\<forall>vs. r1 = Inr vs \<longrightarrow> length vs = length ds \<and> (\<forall>i<length ds. ds ! i = k \<longrightarrow> vs ! i = v))"
    if "array_map (construct n w) t ds = Some (r1, t1)" for ds r1 t1
    using I that
    by (rule array_map_hoare [where f = "construct n w" and I = ?I
          and E = "receives w k v" and Q = "\<lambda>x u. x = k \<longrightarrow> u = v"])
       (use Suc.IH in blast)
  from Suc.prems(1) show ?case
  proof (cases rule: construct_cases)
    case (cached m u)
    with I show ?thesis by auto
  next
    case (provider_throws m fn' e)
    with I fn have "j \<noteq> k" by auto
    with provider_throws I show ?thesis by (simp add: receives_def)
  next
    case (provider_returns m fn' u)
    with I fn have "j = k \<longrightarrow> u = v" by auto
    with provider_returns I show ?thesis by (auto simp: receives_def add_def)
  next
    case (dependencies_throws m e)
    with I show ?thesis by simp
  next
    case (dependency_fails m ds e)
    with deps [of ds "Inl e" t'] show ?thesis by simp
  next
    case (new_throws m ds args t1 e)
    from new_throws(1,5) have "array_map (construct n w) t ds = Some (Inr args, t1)" by simp
    from deps [OF this] obtain es where I1: "?I t1"
      and es: "calls t1 = calls t @ es" "\<forall>e\<in>set es. receives w k v e"
      and args: "length args = length ds" "\<forall>i<length ds. ds ! i = k \<longrightarrow> args ! i = v" by blast
    from args new_throws(4) have "receives w k v (Constructed j args (Inl e))"
      by (simp add: receives_def)
    with es have "calls t' = calls t @ (es @ [Constructed j args (Inl e)])"
      "\<forall>e\<in>set (es @ [Constructed j args (Inl e)]). receives w k v e"
      unfolding new_throws(8) by simp_all
    then have "\<exists>es. calls t' = calls t @ es \<and> (\<forall>e\<in>set es. receives w k v e)" by blast
    with I1 new_throws(7,8) show ?thesis by simp
  next
    case (new_returns m ds args t1)
    let ?e = "Constructed j args (Inr (Obj (Allocated (allocated t1))))"
    from I new_returns(3) have jk: "j \<noteq> k" by auto
    from new_returns(1,5) have "array_map (construct n w) t ds = Some (Inr args, t1)" by simp
    from deps [OF this] obtain es where I1: "?I t1"
      and es: "calls t1 = calls t @ es" "\<forall>e\<in>set es. receives w k v e"
      and args: "length args = length ds" "\<forall>i<length ds. ds ! i = k \<longrightarrow> args ! i = v" by blast
    from args new_returns(4) have "receives w k v ?e"
      by (simp add: receives_def)
    with es have "calls t' = calls t @ (es @ [?e])" "\<forall>e\<in>set (es @ [?e]). receives w k v e"
      unfolding new_returns(8) by (simp_all add: add_def)
    then have "\<exists>es. calls t' = calls t @ es \<and> (\<forall>e\<in>set es. receives w k v e)" by blast
    with I1 jk new_returns(7,8) show ?thesis by (simp add: add_def)
  qed
qed

section \<open>What a call leaves in the cache\<close>




section \<open>The log determines the cache\<close>

text \<open>
  The cache after a call is the cache before it, replayed over the calls that were logged
  in between.
\<close>

lemma replay_append:
  "replay m (es1 @ es2) = (case replay m es1 of None \<Rightarrow> None | Some m1 \<Rightarrow> replay m1 es2)"
  by (induction es1 arbitrary: m) simp_all

lemma replay_cached:
  "replay m es = Some m' \<Longrightarrow> m k \<noteq> None \<Longrightarrow> filter (\<lambda>e. event_key e = k) es = [] \<and> m' k = m k"
proof (induction es arbitrary: m)
  case Nil
  then show ?case by simp
next
  case (Cons e es)
  from Cons.prems have key: "m (event_key e) = None" and ne: "event_key e \<noteq> k"
    by (auto split: if_splits)
  let ?m = "case event_outcome e of Inl _ \<Rightarrow> m | Inr v \<Rightarrow> m(event_key e \<mapsto> v)"
  from Cons.prems key have "replay ?m es = Some m'" by simp
  moreover from ne Cons.prems(2) have "?m k \<noteq> None" and "?m k = m k" by (auto split: sum.splits)
  ultimately show ?case using Cons.IH [of ?m] ne by simp
qed

lemma replay_produced:
  "replay m es = Some m' \<Longrightarrow>
     length (filter (\<lambda>e. event_key e = k \<and> \<not> failed e) es) \<le> 1
     \<and> (filter (\<lambda>e. event_key e = k \<and> \<not> failed e) es \<noteq> [] \<longrightarrow> m' k \<noteq> None)"
proof (induction es arbitrary: m)
  case Nil
  then show ?case by simp
next
  case (Cons e es)
  let ?m = "case event_outcome e of Inl _ \<Rightarrow> m | Inr v \<Rightarrow> m(event_key e \<mapsto> v)"
  from Cons.prems have rest: "replay ?m es = Some m'" by (auto split: if_splits)
  show ?case
  proof (cases "event_key e = k \<and> \<not> failed e")
    case True
    then have "?m k \<noteq> None" by (auto simp: failed_def split: sum.splits)
    with replay_cached [OF rest, of k] have "filter (\<lambda>e. event_key e = k) es = []" "m' k \<noteq> None"
      by simp_all
    then have "filter (\<lambda>e. event_key e = k \<and> \<not> failed e) es = []"
      by (auto simp: filter_empty_conv)
    with True \<open>m' k \<noteq> None\<close> show ?thesis by simp
  next
    case False
    with Cons.IH [OF rest] show ?thesis by auto
  qed
qed

lemma replay_once:
  "replay m es = Some m' \<Longrightarrow> \<forall>e\<in>set (butlast es). \<not> failed e \<Longrightarrow>
     length (filter (\<lambda>e. event_key e = k) es) \<le> 1"
proof (induction es arbitrary: m)
  case Nil
  then show ?case by simp
next
  case (Cons e es)
  let ?m = "case event_outcome e of Inl _ \<Rightarrow> m | Inr v \<Rightarrow> m(event_key e \<mapsto> v)"
  from Cons.prems have rest: "replay ?m es = Some m'" by (auto split: if_splits)
  show ?case
  proof (cases "es = []")
    case True
    then show ?thesis by simp
  next
    case False
    with Cons.prems(2) have ok: "\<not> failed e" and tl: "\<forall>e\<in>set (butlast es). \<not> failed e" by simp_all
    show ?thesis
    proof (cases "event_key e = k")
      case True
      with ok have "?m k \<noteq> None" by (auto simp: failed_def split: sum.splits)
      with replay_cached [OF rest, of k] True show ?thesis by simp
    next
      case False
      with Cons.IH [OF rest tl] show ?thesis by simp
    qed
  qed
qed

lemma fewer_events:
  assumes "\<And>e. P e \<Longrightarrow> Q e"
  shows "length (filter P es) \<le> length (filter Q es)"
  using assms by (induction es) auto

lemma constructs_key: "constructs k e \<Longrightarrow> event_key e = k \<and> \<not> failed e"
  by (cases "(k, e)" rule: constructs.cases) (simp_all add: failed_def)

lemma invokes_key: "invokes k e \<Longrightarrow> event_key e = k"
  by (cases e) simp_all

lemma construct_replay:
  assumes "construct n w s k = Some (r, s')"
  shows "\<exists>es. calls s' = calls s @ es \<and> replay (instances s) es = Some (instances s')"
  using assms
proof (induction rule: construct_steps [where R = "\<lambda>a b. \<exists>es. calls b = calls a @ es
      \<and> replay (instances a) es = Some (instances b)"])
  case (refl s)
  then show ?case by simp
next
  case (trans a b c)
  then obtain es1 es2 where "calls b = calls a @ es1" "replay (instances a) es1 = Some (instances b)"
    "calls c = calls b @ es2" "replay (instances b) es2 = Some (instances c)" by blast
  then have "calls c = calls a @ (es1 @ es2)" "replay (instances a) (es1 @ es2) = Some (instances c)"
    by (simp_all add: replay_append)
  then show ?case by blast
qed (simp_all add: add_def)

section \<open>Where a call can fail\<close>

lemma array_map_success_events:
  assumes step: "\<And>s x v s'. f s x = Some (Inr v, s') \<Longrightarrow> \<exists>es. calls s' = calls s @ es \<and> list_all E es"
  shows "array_map f s xs = Some (Inr vs, s') \<Longrightarrow> \<exists>es. calls s' = calls s @ es \<and> list_all E es"
proof (induction xs arbitrary: s vs)
  case Nil
  then show ?case by simp
next
  case (Cons x xs)
  from Cons.prems obtain v s1 vs' where head: "f s x = Some (Inr v, s1)"
    and rest: "array_map f s1 xs = Some (Inr vs', s')"
    by (auto split: option.splits sum.splits)
  from step [OF head] obtain es1 where 1: "calls s1 = calls s @ es1" "list_all E es1" by blast
  from Cons.IH [OF rest] obtain es2 where 2: "calls s' = calls s1 @ es2" "list_all E es2" by blast
  from 1 2 have "calls s' = calls s @ (es1 @ es2)" "list_all E (es1 @ es2)" by simp_all
  then show ?case by blast
qed

lemma root_cause_append:
  assumes "root_cause w j root es2" and "list_all (\<lambda>e. \<not> failed e) es1"
  shows "root_cause w j root (es1 @ es2)"
  using assms by (auto simp: root_cause_def)

lemma butlast_ok_append:
  assumes "list_all (\<lambda>e. \<not> failed e) es1" and "list_all (\<lambda>e. \<not> failed e) (butlast es2)"
  shows "list_all (\<lambda>e. \<not> failed e) (butlast (es1 @ es2))"
  using assms by (cases "es2 = []") (auto simp: butlast_append list_all_iff dest: in_set_butlastD)

lemma construct_failures:
  "construct n w s k = Some (r, s') \<Longrightarrow>
     \<exists>es. calls s' = calls s @ es \<and> list_all (\<lambda>e. \<not> failed e) (butlast es)
       \<and> (case r of
             Inr v \<Rightarrow> list_all (\<lambda>e. \<not> failed e) es
           | Inl x \<Rightarrow> \<exists>ks root. ks \<noteq> [] \<and> hd ks = k \<and> is_path w ks
                 \<and> x = foldr (new_ConstructionError w) ks root \<and> root_cause w (last ks) root es)"
proof (induction n arbitrary: s k r s')
  case 0
  then show ?case by simp
next
  case (Suc n)
  have ok: "\<exists>es. calls s1 = calls a @ es \<and> list_all (\<lambda>e. \<not> failed e) es"
    if "array_map (construct n w) a ds = Some (Inr vs, s1)" for a ds vs s1
    using that
  proof (rule array_map_success_events [rotated])
    fix a x v b assume "construct n w a x = Some (Inr v, b)"
    from Suc.IH [OF this] show "\<exists>es. calls b = calls a @ es \<and> list_all (\<lambda>e. \<not> failed e) es"
      by auto
  qed
  from Suc.prems show ?case
  proof (cases rule: construct_cases)
    case (cached m v)
    then show ?thesis by simp
  next
    case (provider_throws m fn e)
    have "[k] \<noteq> [] \<and> hd [k] = k \<and> is_path w [k]
        \<and> new_ConstructionError w k e = foldr (new_ConstructionError w) [k] e
        \<and> root_cause w (last [k]) e [Provided k (Inl e)]"
      by (simp add: root_cause_def)
    then have "\<exists>ks root. ks \<noteq> [] \<and> hd ks = k \<and> is_path w ks
        \<and> new_ConstructionError w k e = foldr (new_ConstructionError w) ks root
        \<and> root_cause w (last ks) root [Provided k (Inl e)]" by blast
    with provider_throws show ?thesis by simp
  next
    case (provider_returns m fn v)
    then show ?thesis by (simp add: add_def failed_def)
  next
    case (dependencies_throws m e)
    have "[k] \<noteq> [] \<and> hd [k] = k \<and> is_path w [k]
        \<and> new_ConstructionError w k e = foldr (new_ConstructionError w) [k] e
        \<and> root_cause w (last [k]) e []"
      using dependencies_throws(4) by (simp add: root_cause_def)
    then have "\<exists>ks root. ks \<noteq> [] \<and> hd ks = k \<and> is_path w ks
        \<and> new_ConstructionError w k e = foldr (new_ConstructionError w) ks root
        \<and> root_cause w (last ks) root []" by blast
    with dependencies_throws show ?thesis by simp
  next
    case (dependency_fails m ds e)
    from dependency_fails(1,5) have "array_map (construct n w) s ds = Some (Inl e, s')" by simp
    from array_map_failure [OF this] obtain i vs s1 where i: "i < length ds"
      and pre: "array_map (construct n w) s (take i ds) = Some (Inr vs, s1)"
      and fail: "construct n w s1 (ds ! i) = Some (Inl e, s')" by blast
    from ok [OF pre] obtain es1 where es1: "calls s1 = calls s @ es1" "list_all (\<lambda>e. \<not> failed e) es1"
      by blast
    from Suc.IH [OF fail] obtain es2 ks root where es2: "calls s' = calls s1 @ es2"
      "list_all (\<lambda>e. \<not> failed e) (butlast es2)"
      and ks: "ks \<noteq> []" "hd ks = ds ! i" "is_path w ks" "e = foldr (new_ConstructionError w) ks root"
      "root_cause w (last ks) root es2" by auto
    from ks(1,2) obtain ks' where ks': "ks = (ds ! i) # ks'" by (cases ks) auto
    have "is_path w (k # ks)"
      using ks(3) i dependency_fails(4) unfolding ks' by simp
    moreover have "new_ConstructionError w k e = foldr (new_ConstructionError w) (k # ks) root"
      using ks(4) by simp
    moreover have "root_cause w (last (k # ks)) root (es1 @ es2)"
      using ks(1,5) es1(2) by (simp add: root_cause_append)
    ultimately have "\<exists>ks root. ks \<noteq> [] \<and> hd ks = k \<and> is_path w ks
        \<and> new_ConstructionError w k e = foldr (new_ConstructionError w) ks root
        \<and> root_cause w (last ks) root (es1 @ es2)"
      by (intro exI [of _ "k # ks"] exI [of _ root]) simp
    moreover have "calls s' = calls s @ (es1 @ es2)" using es1 es2 by simp
    moreover have "list_all (\<lambda>e. \<not> failed e) (butlast (es1 @ es2))"
      using es1(2) es2(2) by (rule butlast_ok_append)
    ultimately show ?thesis using dependency_fails(6) by auto
  next
    case (new_throws m ds args s1 e)
    from new_throws(1,5) have "array_map (construct n w) s ds = Some (Inr args, s1)" by simp
    from ok [OF this] obtain es1 where es1: "calls s1 = calls s @ es1" "list_all (\<lambda>e. \<not> failed e) es1"
      by blast
    let ?es = "es1 @ [Constructed k args (Inl e)]"
    have "[k] \<noteq> [] \<and> hd [k] = k \<and> is_path w [k]
        \<and> new_ConstructionError w k e = foldr (new_ConstructionError w) [k] e
        \<and> root_cause w (last [k]) e ?es"
      by (simp add: root_cause_def)
    then have "\<exists>ks root. ks \<noteq> [] \<and> hd ks = k \<and> is_path w ks
        \<and> new_ConstructionError w k e = foldr (new_ConstructionError w) ks root
        \<and> root_cause w (last ks) root ?es" by blast
    moreover have "calls s' = calls s @ ?es" "list_all (\<lambda>e. \<not> failed e) (butlast ?es)"
      using es1 new_throws(8) by simp_all
    ultimately show ?thesis using new_throws(7) by auto
  next
    case (new_returns m ds args s1)
    from new_returns(1,5) have "array_map (construct n w) s ds = Some (Inr args, s1)" by simp
    from ok [OF this] obtain es1 where es1: "calls s1 = calls s @ es1" "list_all (\<lambda>e. \<not> failed e) es1"
      by blast
    let ?es = "es1 @ [Constructed k args (Inr (Obj (Allocated (allocated s1))))]"
    have "calls s' = calls s @ ?es" "list_all (\<lambda>e. \<not> failed e) ?es"
      using es1 new_returns(8) by (simp_all add: add_def failed_def)
    then show ?thesis using new_returns(7) by auto
  qed
qed

section \<open>The life of a container\<close>

lemma run_calls:
  "run n w s ops = Some s' \<Longrightarrow> \<exists>es. calls s' = calls s @ es"
proof (induction ops arbitrary: s)
  case Nil
  then show ?case by simp
next
  case (Cons x ops)
  from Cons.prems obtain s1 where 1: "step n w s x = Some s1" and 2: "run n w s1 ops = Some s'"
    by (auto split: option.splits)
  from 1 have "\<exists>es. calls s1 = calls s @ es"
    by (cases x) (auto simp: add_def provide_def dest: construct_calls)
  with Cons.IH [OF 2] show ?case by auto
qed

lemma filter_constructs_cached:
  assumes "filter (\<lambda>e. event_key e = k) es = []"
  shows "filter (constructs k) es = []" and "filter (invokes k) es = []"
  using assms by (auto simp: filter_empty_conv dest: constructs_key invokes_key)

lemma step_constructions:
  assumes step: "step n w s x = Some s1"
    and len: "L \<le> length (calls s)"
    and inv: "\<forall>k. length (filter (constructs k) (drop L (calls s))) \<le> 1
        \<and> (filter (constructs k) (drop L (calls s)) \<noteq> [] \<longrightarrow> instances s k \<noteq> None)"
  shows "L \<le> length (calls s1) \<and>
     (\<forall>k. length (filter (constructs k) (drop L (calls s1))) \<le> 1
        \<and> (filter (constructs k) (drop L (calls s1)) \<noteq> [] \<longrightarrow> instances s1 k \<noteq> None))"
proof (cases x)
  case (Add j v)
  with step len inv show ?thesis by (auto simp: add_def)
next
  case (Provide j fn)
  with step len inv show ?thesis by (auto simp: provide_def)
next
  case (Construct j)
  with step obtain r where run: "construct n w s j = Some (r, s1)" by auto
  from construct_replay [OF run] obtain es where es: "calls s1 = calls s @ es"
    and rp: "replay (instances s) es = Some (instances s1)" by blast
  from es len have drop: "drop L (calls s1) = drop L (calls s) @ es" by simp
  have "length (filter (constructs k) (drop L (calls s1))) \<le> 1
      \<and> (filter (constructs k) (drop L (calls s1)) \<noteq> [] \<longrightarrow> instances s1 k \<noteq> None)" for k
  proof (cases "instances s k")
    case (Some v)
    with replay_cached [OF rp, of k] have "filter (\<lambda>e. event_key e = k) es = []"
      and "instances s1 k \<noteq> None" by simp_all
    with inv show ?thesis unfolding drop by (simp add: filter_constructs_cached)
  next
    case None
    with inv have before: "filter (constructs k) (drop L (calls s)) = []" by blast
    have "length (filter (constructs k) es) \<le> length (filter (\<lambda>e. event_key e = k \<and> \<not> failed e) es)"
      by (rule fewer_events) (rule constructs_key)
    moreover from replay_produced [OF rp, of k]
    have "length (filter (\<lambda>e. event_key e = k \<and> \<not> failed e) es) \<le> 1"
      and "filter (\<lambda>e. event_key e = k \<and> \<not> failed e) es \<noteq> [] \<longrightarrow> instances s1 k \<noteq> None"
      by simp_all
    moreover have "filter (\<lambda>e. event_key e = k \<and> \<not> failed e) es \<noteq> []"
      if "filter (constructs k) es \<noteq> []"
      using that by (auto simp: filter_empty_conv dest: constructs_key)
    ultimately show ?thesis unfolding drop using before by auto
  qed
  with es len show ?thesis by simp
qed

lemma run_constructions:
  assumes "run n w s ops = Some s'"
    and "L \<le> length (calls s)"
    and "\<forall>k. length (filter (constructs k) (drop L (calls s))) \<le> 1
        \<and> (filter (constructs k) (drop L (calls s)) \<noteq> [] \<longrightarrow> instances s k \<noteq> None)"
  shows "\<forall>k. length (filter (constructs k) (drop L (calls s'))) \<le> 1"
  using assms
proof (induction ops arbitrary: s)
  case Nil
  then show ?case by simp
next
  case (Cons x ops)
  from Cons.prems(1) obtain s1 where 1: "step n w s x = Some s1" and 2: "run n w s1 ops = Some s'"
    by (auto split: option.splits)
  from step_constructions [OF 1 Cons.prems(2,3)] Cons.IH [OF 2] show ?case by blast
qed

section \<open>The cases of a call when caller code may call back\<close>

text \<open>
  Code that returns or throws at once leaves the container alone. The case analysis of a
  \<^verbatim>\<open>construct\<close> call below is for caller code of that kind; the three equations for the
  branches of \<^verbatim>\<open>construct\<close> hold for all caller code.
\<close>

lemma exec_immediate:
  "immediate body \<Longrightarrow> exec body f s = Some (result_of body, s)"
  by (cases body) simp_all

lemma quiet_code:
  assumes "quiet w"
  shows "immediate (function_code w f)" and "immediate (dependencies_code w k)"
    and "immediate (constructor_code w k args)"
proof -
  show "immediate (function_code w f)"
  proof (cases f)
    case (Obj r)
    with assms show ?thesis by (cases "function_of w r"; cases "dependencies_of w r"; cases "constructor_of w r args") (simp_all add: quiet_def)
  qed simp_all
  show "immediate (dependencies_code w k)"
  proof (cases k)
    case (Obj r)
    with assms show ?thesis by (cases "function_of w r"; cases "dependencies_of w r"; cases "constructor_of w r args") (simp_all add: quiet_def)
  qed simp_all
  show "immediate (constructor_code w k args)"
  proof (cases k)
    case (Obj r)
    with assms show ?thesis by (cases "function_of w r"; cases "dependencies_of w r"; cases "constructor_of w r args") (simp_all add: quiet_def)
  qed simp_all
qed

lemma try_catch'_rethrown:
  "try_catch' w k body =
     (case body of None \<Rightarrow> None | Some (Inl e, s1) \<Rightarrow> Some (Inl (rethrown w k e), s1)
      | Some (Inr v, s1) \<Rightarrow> Some (Inr v, s1))"
  by (simp add: try_catch'_def rethrown_def split: option.splits prod.splits sum.splits)

lemma construct'_cached:
  "instances' s k = Some v \<Longrightarrow> construct' (Suc n) w s k = Some (Inr v, s)"
  by (simp add: Map_has_def Map_get_def try_catch'_def)

lemma construct'_provider:
  assumes "instances' s k = None" and "providers' s k = Some f"
  shows "construct' (Suc n) w s k = try_catch' w k (constructViaProvider' (construct' n w) w s k)"
  using assms by (simp add: Map_has_def)

lemma construct'_default:
  assumes "instances' s k = None" and "providers' s k = None"
  shows "construct' (Suc n) w s k = try_catch' w k (constructViaDependencies' (construct' n w) w s k)"
  using assms by (simp add: Map_has_def)

declare construct'.simps(2) [simp del]

lemma quiet_provider:
  assumes "quiet w" and "providers' s k = Some f"
  shows "constructViaProvider' c w s k =
     (case result_of (function_code w f) of
        Inl e \<Rightarrow> Some (Inl e, s\<lparr>calls' := calls' s @ [Provided k (Inl e)]\<rparr>)
      | Inr v \<Rightarrow> Some (Inr v, add' (s\<lparr>calls' := calls' s @ [Provided k (Inr v)]\<rparr>) k v))"
  using assms(2) exec_immediate [OF quiet_code(1) [OF assms(1)], of f c s]
  by (simp add: constructViaProvider'_def Map_get_def split: sum.splits)

lemma quiet_instantiate:
  assumes "quiet w"
  shows "instantiate' c w s k args =
     (case result_of (constructor_code w k args) of
        Inl e \<Rightarrow> Some (Inl e, s\<lparr>calls' := calls' s @ [Constructed k args (Inl e)]\<rparr>)
      | Inr None \<Rightarrow> Some (Inr (Obj (Allocated (allocated' s))),
          add' (s\<lparr>allocated' := Suc (allocated' s),
                  calls' := calls' s @ [Constructed k args (Inr (Obj (Allocated (allocated' s))))]\<rparr>)
            k (Obj (Allocated (allocated' s))))
      | Inr (Some r) \<Rightarrow> Some (Inr (Obj r),
          add' (s\<lparr>calls' := calls' s @ [Constructed k args (Inr (Obj r))]\<rparr>) k (Obj r)))"
  using exec_immediate [OF quiet_code(3) [OF assms], of k args c s]
  by (simp add: instantiate'_def Let_def split: sum.splits option.splits)

lemma quiet_dependencies:
  assumes "quiet w"
  shows "constructViaDependencies' c w s k =
     (case result_of (dependencies_code w k) of
        Inl e \<Rightarrow> Some (Inl e, s)
      | Inr ds \<Rightarrow>
          (case array_map' c s ds of
             None \<Rightarrow> None
           | Some (Inl e, s1) \<Rightarrow> Some (Inl e, s1)
           | Some (Inr args, s1) \<Rightarrow> instantiate' c w s1 k args))"
  using exec_immediate [OF quiet_code(2) [OF assms], of k c s]
  by (simp add: constructViaDependencies'_def split: sum.splits)

lemma construct'_cases [consumes 2, case_names cached provider_throws provider_returns
    dependencies_throws dependency_fails new_throws new_returns]:
  assumes run: "construct' n w s k = Some (r, s')" and quiet: "quiet w"
    and cached: "\<And>m v. n = Suc m \<Longrightarrow> instances' s k = Some v \<Longrightarrow> r = Inr v \<Longrightarrow> s' = s \<Longrightarrow> P"
    and provider_throws: "\<And>m f e. n = Suc m \<Longrightarrow> instances' s k = None \<Longrightarrow> providers' s k = Some f \<Longrightarrow>
        result_of (function_code w f) = Inl e \<Longrightarrow> r = Inl (rethrown w k e) \<Longrightarrow>
        s' = s\<lparr>calls' := calls' s @ [Provided k (Inl e)]\<rparr> \<Longrightarrow> P"
    and provider_returns: "\<And>m f v. n = Suc m \<Longrightarrow> instances' s k = None \<Longrightarrow> providers' s k = Some f \<Longrightarrow>
        result_of (function_code w f) = Inr v \<Longrightarrow> r = Inr v \<Longrightarrow>
        s' = add' (s\<lparr>calls' := calls' s @ [Provided k (Inr v)]\<rparr>) k v \<Longrightarrow> P"
    and dependencies_throws: "\<And>m e. n = Suc m \<Longrightarrow> instances' s k = None \<Longrightarrow> providers' s k = None \<Longrightarrow>
        result_of (dependencies_code w k) = Inl e \<Longrightarrow> r = Inl (rethrown w k e) \<Longrightarrow> s' = s \<Longrightarrow> P"
    and dependency_fails: "\<And>m ds e. n = Suc m \<Longrightarrow> instances' s k = None \<Longrightarrow> providers' s k = None \<Longrightarrow>
        result_of (dependencies_code w k) = Inr ds \<Longrightarrow> array_map' (construct' m w) s ds = Some (Inl e, s') \<Longrightarrow>
        r = Inl (rethrown w k e) \<Longrightarrow> P"
    and new_throws: "\<And>m ds args s1 e. n = Suc m \<Longrightarrow> instances' s k = None \<Longrightarrow> providers' s k = None \<Longrightarrow>
        result_of (dependencies_code w k) = Inr ds \<Longrightarrow> array_map' (construct' m w) s ds = Some (Inr args, s1) \<Longrightarrow>
        result_of (constructor_code w k args) = Inl e \<Longrightarrow> r = Inl (rethrown w k e) \<Longrightarrow>
        s' = s1\<lparr>calls' := calls' s1 @ [Constructed k args (Inl e)]\<rparr> \<Longrightarrow> P"
    and new_returns: "\<And>m ds args s1 a v. n = Suc m \<Longrightarrow> instances' s k = None \<Longrightarrow> providers' s k = None \<Longrightarrow>
        result_of (dependencies_code w k) = Inr ds \<Longrightarrow> array_map' (construct' m w) s ds = Some (Inr args, s1) \<Longrightarrow>
        (\<exists>ret. result_of (constructor_code w k args) = Inr ret) \<Longrightarrow> allocated' s1 \<le> a \<Longrightarrow>
        r = Inr v \<Longrightarrow>
        s' = add' (s1\<lparr>allocated' := a, calls' := calls' s1 @ [Constructed k args (Inr v)]\<rparr>) k v \<Longrightarrow> P"
  shows P
proof (cases n)
  case 0
  with run show ?thesis by simp
next
  case (Suc m)
  show ?thesis
  proof (cases "instances' s k")
    case (Some v)
    from run Suc construct'_cached [OF Some, of m w] have "r = Inr v" and "s' = s" by simp_all
    with Suc Some show ?thesis by (rule cached)
  next
    case None
    note uncached = this
    show ?thesis
    proof (cases "providers' s k")
      case (Some f)
      from run Suc have body: "try_catch' w k (constructViaProvider' (construct' m w) w s k) = Some (r, s')"
        using construct'_provider [OF uncached Some, of m w] by simp
      show ?thesis
      proof (cases "result_of (function_code w f)")
        case (Inl e)
        with body have "r = Inl (rethrown w k e)"
          and "s' = s\<lparr>calls' := calls' s @ [Provided k (Inl e)]\<rparr>"
          by (auto simp: try_catch'_rethrown quiet_provider [OF quiet Some])
        with Suc uncached Some Inl show ?thesis by (rule provider_throws)
      next
        case (Inr v)
        with body have "r = Inr v"
          and "s' = add' (s\<lparr>calls' := calls' s @ [Provided k (Inr v)]\<rparr>) k v"
          by (auto simp: try_catch'_rethrown quiet_provider [OF quiet Some])
        with Suc uncached Some Inr show ?thesis by (rule provider_returns)
      qed
    next
      case None
      note noprov = this
      from run Suc
      have body: "try_catch' w k (constructViaDependencies' (construct' m w) w s k) = Some (r, s')"
        using construct'_default [OF uncached noprov, of m w] by simp
      show ?thesis
      proof (cases "result_of (dependencies_code w k)")
        case (Inl e)
        with body have "r = Inl (rethrown w k e)" and "s' = s"
          by (auto simp: try_catch'_rethrown quiet_dependencies [OF quiet])
        with Suc uncached noprov Inl show ?thesis by (rule dependencies_throws)
      next
        case (Inr ds)
        note deps = this
        from body deps obtain r1 s1 where am: "array_map' (construct' m w) s ds = Some (r1, s1)"
          by (auto simp: try_catch'_rethrown quiet_dependencies [OF quiet] split: option.splits)
        show ?thesis
        proof (cases r1)
          case (Inl e)
          with body deps am have "r = Inl (rethrown w k e)" and "s1 = s'"
            by (auto simp: try_catch'_rethrown quiet_dependencies [OF quiet])
          with Suc uncached noprov deps am Inl show ?thesis
            using dependency_fails [of m ds e] by simp
        next
          case (Inr args)
          note ok = this
          from body deps am ok
          have inst: "try_catch' w k (instantiate' (construct' m w) w s1 k args) = Some (r, s')"
            by (simp add: quiet_dependencies [OF quiet])
          show ?thesis
          proof (cases "result_of (constructor_code w k args)")
            case (Inl e)
            with inst have "r = Inl (rethrown w k e)"
              and "s' = s1\<lparr>calls' := calls' s1 @ [Constructed k args (Inl e)]\<rparr>"
              by (auto simp: try_catch'_rethrown quiet_instantiate [OF quiet])
            with Suc uncached noprov deps am ok Inl show ?thesis
              using new_throws [of m ds args s1 e] by simp
          next
            case (Inr ret)
            show ?thesis
            proof (cases ret)
              case None
              with inst Inr have "r = Inr (Obj (Allocated (allocated' s1)))"
                and "s' = add' (s1\<lparr>allocated' := Suc (allocated' s1),
                    calls' := calls' s1 @ [Constructed k args (Inr (Obj (Allocated (allocated' s1))))]\<rparr>)
                  k (Obj (Allocated (allocated' s1)))"
                by (auto simp: try_catch'_rethrown quiet_instantiate [OF quiet])
              with Suc uncached noprov deps am ok Inr show ?thesis
                using new_returns [of m ds args s1 "Suc (allocated' s1)" "Obj (Allocated (allocated' s1))"]
                by auto
            next
              case (Some x)
              with inst Inr have "r = Inr (Obj x)"
                and "s' = add' (s1\<lparr>allocated' := allocated' s1,
                    calls' := calls' s1 @ [Constructed k args (Inr (Obj x))]\<rparr>) k (Obj x)"
                by (auto simp: try_catch'_rethrown quiet_instantiate [OF quiet])
              with Suc uncached noprov deps am ok Inr show ?thesis
                using new_returns [of m ds args s1 "allocated' s1" "Obj x"]
                by auto
            qed
          qed
        qed
      qed
    qed
  qed
qed

section \<open>What every call preserves, without callbacks\<close>

lemma array_map'_rel:
  assumes step: "\<And>s x r s'. f s x = Some (r, s') \<Longrightarrow> R s s'"
    and refl: "\<And>s. R s s"
    and trans: "\<And>a b c. R a b \<Longrightarrow> R b c \<Longrightarrow> R a c"
  shows "array_map' f s xs = Some (r, s') \<Longrightarrow> R s s'"
proof (induction xs arbitrary: s r s')
  case Nil
  then show ?case by (simp add: refl)
next
  case (Cons x xs)
  from Cons.prems obtain r1 s1 where f: "f s x = Some (r1, s1)"
    by (auto split: option.splits)
  have R1: "R s s1" using step [OF f] .
  show ?case
  proof (cases r1)
    case (Inl e)
    with Cons.prems f have "s' = s1" by simp
    with R1 show ?thesis by simp
  next
    case (Inr v)
    with Cons.prems f obtain r2 where "array_map' f s1 xs = Some (r2, s')"
      by (auto split: option.splits sum.splits)
    from Cons.IH [OF this] R1 show ?thesis by (rule trans [rotated])
  qed
qed

lemma construct'_rel:
  assumes quiet: "quiet w"
    and refl: "\<And>s. R s s"
    and trans: "\<And>a b c. R a b \<Longrightarrow> R b c \<Longrightarrow> R a c"
    and log: "\<And>s e. R s (s\<lparr>calls' := calls' s @ [e]\<rparr>)"
    and alloc: "\<And>s a. allocated' s \<le> a \<Longrightarrow> R s (s\<lparr>allocated' := a\<rparr>)"
    and add: "\<And>s k v. R s (add' s k v)"
  shows "construct' n w s k = Some (r, s') \<Longrightarrow> R s s'"
proof (induction n arbitrary: s k r s')
  case 0
  then show ?case by simp
next
  case (Suc n)
  have am: "R a b" if "array_map' (construct' n w) a ds = Some (r1, b)" for a b ds r1
    by (rule array_map'_rel [where f = "construct' n w" and R = R, OF Suc.IH refl trans that])
  from Suc.prems quiet show ?case
  proof (cases rule: construct'_cases)
    case (cached m v)
    then show ?thesis by (simp add: refl)
  next
    case (provider_throws m fn e)
    then show ?thesis by (simp add: log)
  next
    case (provider_returns m fn v)
    show ?thesis unfolding provider_returns by (rule trans [OF log add])
  next
    case (dependencies_throws m e)
    then show ?thesis by (simp add: refl)
  next
    case (dependency_fails m ds e)
    then show ?thesis using am by simp
  next
    case (new_throws m ds args s1 e)
    then have "R s s1" using am by simp
    then show ?thesis unfolding new_throws by (rule trans [OF _ log])
  next
    case (new_returns m ds args s1 a v)
    then have 1: "R s s1" using am by simp
    have 2: "R s1 (s1\<lparr>allocated' := a\<rparr>)" using new_returns(7) by (rule alloc)
    have 3: "R (s1\<lparr>allocated' := a\<rparr>)
        (s1\<lparr>allocated' := a, calls' := calls' s1 @ [Constructed k args (Inr v)]\<rparr>)"
      using log [of "s1\<lparr>allocated' := a\<rparr>"] by simp
    show ?thesis unfolding new_returns(9)
      by (rule trans [OF 1 trans [OF 2 trans [OF 3 add]]])
  qed
qed

lemma construct'_providers:
  "quiet w \<Longrightarrow> construct' n w s k = Some (r, s') \<Longrightarrow> providers' s' = providers' s"
  by (rule construct'_rel [where R = "\<lambda>a b. providers' b = providers' a"]) (simp_all add: add'_def)

lemma construct'_calls:
  "quiet w \<Longrightarrow> construct' n w s k = Some (r, s') \<Longrightarrow> \<exists>es. calls' s' = calls' s @ es"
  by (rule construct'_rel [where R = "\<lambda>a b. \<exists>es. calls' b = calls' a @ es"]) (auto simp: add'_def)

lemma array_map'_providers:
  "quiet w \<Longrightarrow> array_map' (construct' n w) s xs = Some (r, s') \<Longrightarrow> providers' s' = providers' s"
  by (rule array_map'_rel [where f = "construct' n w" and R = "\<lambda>a b. providers' b = providers' a"])
     (simp_all add: construct'_providers)

section \<open>Blocked keys, without callbacks\<close>

lemma blocked'_mono:
  assumes "blocked' w s T X" and "Y \<subseteq> X"
    and "\<forall>a\<in>T. instances' s' a = None" and "providers' s' = providers' s"
  shows "blocked' w s' T Y"
  using assms unfolding blocked'_def by (metis subset_trans)

lemma array_map'_blocked:
  assumes f_blocked: "\<And>s x r s' T. f s x = Some (r, s') \<Longrightarrow> blocked' w s T {x} \<Longrightarrow>
        (\<forall>a\<in>T. instances' s' a = None) \<and> (x \<in> T \<longrightarrow> isl r)"
    and f_providers: "\<And>s x r s'. f s x = Some (r, s') \<Longrightarrow> providers' s' = providers' s"
  shows "array_map' f s xs = Some (r1, s1) \<Longrightarrow> blocked' w s T (set xs) \<Longrightarrow>
        (\<forall>a\<in>T. instances' s1 a = None) \<and> ((\<exists>x\<in>set xs. x \<in> T) \<longrightarrow> isl r1)"
proof (induction xs arbitrary: s r1 s1)
  case Nil
  then show ?case by (simp add: blocked'_def)
next
  case (Cons x xs)
  from Cons.prems(1) obtain r0 s0 where f: "f s x = Some (r0, s0)"
    by (auto split: option.splits)
  have "blocked' w s T {x}"
    using Cons.prems(2) by (rule blocked'_mono) (use Cons.prems(2) in \<open>simp_all add: blocked'_def\<close>)
  from f_blocked [OF f this]
  have keep0: "\<forall>a\<in>T. instances' s0 a = None" and fail0: "x \<in> T \<longrightarrow> isl r0" by simp_all
  have prov0: "providers' s0 = providers' s" using f by (rule f_providers)
  show ?case
  proof (cases r0)
    case (Inl e)
    with Cons.prems(1) f have "r1 = Inl e" and "s1 = s0" by simp_all
    with keep0 show ?thesis by simp
  next
    case (Inr v)
    with fail0 have x: "x \<notin> T" by auto
    from Inr Cons.prems(1) f obtain r2 where
      rest: "array_map' f s0 xs = Some (r2, s1)" and r1: "isl r1 = isl r2"
      by (auto split: option.splits sum.splits)
    have "blocked' w s0 T (set xs)"
      using Cons.prems(2) _ keep0 prov0 by (rule blocked'_mono) auto
    from Cons.IH [OF rest this] x r1 show ?thesis by auto
  qed
qed

lemma construct'_blocked:
  assumes quiet: "quiet w"
  shows "construct' n w s j = Some (r, s') \<Longrightarrow> blocked' w s T {j} \<Longrightarrow>
     (\<forall>a\<in>T. instances' s' a = None) \<and> (j \<in> T \<longrightarrow> isl r)"
proof (induction n arbitrary: s j r s' T)
  case 0
  then show ?case by simp
next
  case (Suc n)
  note blk = Suc.prems(2)
  have keep: "\<forall>a\<in>T. instances' s a = None" using blk by (simp add: blocked'_def)
  have noprov: "\<forall>a\<in>T. providers' s a = None" using blk by (simp add: blocked'_def)
  have deps: "(\<forall>a\<in>insert j T. instances' s1 a = None) \<and> ((\<exists>x\<in>set ds. x \<in> insert j T) \<longrightarrow> isl r1)"
    if "instances' s j = None" "providers' s j = None" "result_of (dependencies_code w j) = Inr ds"
      "array_map' (construct' n w) s ds = Some (r1, s1)" for ds r1 s1
  proof -
    have "blocked' w s (insert j T) (set ds)"
      using blk that(1-3) unfolding blocked'_def by auto
    show ?thesis
    proof (rule array_map'_blocked [where f = "construct' n w" and w = w])
      show "array_map' (construct' n w) s ds = Some (r1, s1)" by fact
      show "blocked' w s (insert j T) (set ds)" by fact
      show "providers' b = providers' a" if "construct' n w a x = Some (r, b)" for a x r b
        using quiet that by (rule construct'_providers)
      show "(\<forall>a\<in>U. instances' b a = None) \<and> (x \<in> U \<longrightarrow> isl r)"
        if "construct' n w a x = Some (r, b)" and "blocked' w a U {x}" for a x r b U
        using that by (rule Suc.IH)
    qed
  qed
  from Suc.prems(1) quiet show ?case
  proof (cases rule: construct'_cases)
    case (cached m v)
    with keep show ?thesis by auto
  next
    case (provider_throws m fn e)
    with keep show ?thesis by simp
  next
    case (provider_returns m fn v)
    with noprov have "j \<notin> T" by auto
    with keep provider_returns show ?thesis by (auto simp: add'_def)
  next
    case (dependencies_throws m e)
    with keep show ?thesis by simp
  next
    case (dependency_fails m ds e)
    with deps [of ds "Inl e" s'] show ?thesis by simp
  next
    case (new_throws m ds args s1 e)
    with deps [of ds "Inr args" s1] show ?thesis by simp
  next
    case (new_returns m ds args s1 a v)
    with deps [of ds "Inr args" s1]
    have keep1: "\<forall>a\<in>insert j T. instances' s1 a = None"
      and none: "\<forall>x\<in>set ds. x \<notin> insert j T" by auto
    have "j \<notin> T"
    proof
      assume "j \<in> T"
      with blk obtain ds' where "result_of (dependencies_code w j) = Inr ds'"
        and "(\<exists>b\<in>set ds'. b \<in> T) \<or> {j} \<subseteq> set ds'"
        unfolding blocked'_def by blast
      with new_returns(4) have "(\<exists>b\<in>set ds. b \<in> T) \<or> {j} \<subseteq> set ds"
        by simp
      with none show False by auto
    qed
    with keep1 show ?thesis unfolding new_returns(9) by (auto simp: add'_def)
  qed
qed

lemma dependencies_keep_uncached':
  assumes "quiet w" and "instances' s k = None" and "providers' s k = None"
    and "result_of (dependencies_code w k) = Inr ds"
    and "array_map' (construct' n w) s ds = Some (r1, s1)"
  shows "instances' s1 k = None"
proof -
  have "blocked' w s {k} (set ds)" using assms(2-4) by (simp add: blocked'_def)
  have "(\<forall>a\<in>{k}. instances' s1 a = None) \<and> ((\<exists>x\<in>set ds. x \<in> {k}) \<longrightarrow> isl r1)"
  proof (rule array_map'_blocked [where f = "construct' n w" and w = w])
    show "array_map' (construct' n w) s ds = Some (r1, s1)" by fact
    show "blocked' w s {k} (set ds)" by fact
    show "providers' b = providers' a" if "construct' n w a x = Some (r, b)" for a x r b
      using assms(1) that by (rule construct'_providers)
    show "(\<forall>a\<in>U. instances' b a = None) \<and> (x \<in> U \<longrightarrow> isl r)"
      if "construct' n w a x = Some (r, b)" and "blocked' w a U {x}" for a x r b U
      using that by (rule construct'_blocked [OF assms(1)])
  qed
  then show ?thesis by simp
qed

section \<open>The steps of a call, without callbacks\<close>

lemma construct'_steps [consumes 2, case_names refl trans provider_throws new_throws provider_returns new_returns]:
  assumes run: "construct' n w s k = Some (r, s')" and quiet: "quiet w"
    and refl: "\<And>s. R s s"
    and trans: "\<And>a b c. R a b \<Longrightarrow> R b c \<Longrightarrow> R a c"
    and provider_throws: "\<And>s k e. instances' s k = None \<Longrightarrow> providers' s k \<noteq> None \<Longrightarrow>
        R s (s\<lparr>calls' := calls' s @ [Provided k (Inl e)]\<rparr>)"
    and new_throws: "\<And>s k args e. instances' s k = None \<Longrightarrow> providers' s k = None \<Longrightarrow>
        R s (s\<lparr>calls' := calls' s @ [Constructed k args (Inl e)]\<rparr>)"
    and provider_returns: "\<And>s k v. instances' s k = None \<Longrightarrow> providers' s k \<noteq> None \<Longrightarrow>
        R s (add' (s\<lparr>calls' := calls' s @ [Provided k (Inr v)]\<rparr>) k v)"
    and new_returns: "\<And>s k args a v. instances' s k = None \<Longrightarrow> providers' s k = None \<Longrightarrow>
        allocated' s \<le> a \<Longrightarrow>
        R s (add' (s\<lparr>allocated' := a, calls' := calls' s @ [Constructed k args (Inr v)]\<rparr>) k v)"
  shows "R s s'"
  using run
proof (induction n arbitrary: s k r s')
  case 0
  then show ?case by simp
next
  case (Suc n)
  have am: "R a b" if "array_map' (construct' n w) a ds = Some (r1, b)" for a b ds r1
    by (rule array_map'_rel [where f = "construct' n w" and R = R, OF Suc.IH refl trans that])
  from Suc.prems quiet show ?case
  proof (cases rule: construct'_cases)
    case (cached m v)
    then show ?thesis by (simp add: refl)
  next
    case (provider_throws m fn e)
    then show ?thesis using assms(5) [of s k e] by simp
  next
    case (provider_returns m fn v)
    then show ?thesis using assms(7) [of s k v] by simp
  next
    case (dependencies_throws m e)
    then show ?thesis by (simp add: refl)
  next
    case (dependency_fails m ds e)
    then show ?thesis using am by simp
  next
    case (new_throws m ds args s1 e)
    then have 1: "R s s1" using am by simp
    from new_throws quiet have "instances' s1 k = None" and "providers' s1 = providers' s"
      by (auto intro: dependencies_keep_uncached' array_map'_providers)
    with new_throws have "R s1 s'" using assms(6) [of s1 k args e] by simp
    with 1 show ?thesis by (rule trans)
  next
    case (new_returns m ds args s1 a v)
    then have 1: "R s s1" using am by simp
    from new_returns quiet have "instances' s1 k = None" and "providers' s1 = providers' s"
      by (auto intro: dependencies_keep_uncached' array_map'_providers)
    with new_returns have "R s1 s'" using assms(8) [of s1 k a args v] by simp
    with 1 show ?thesis by (rule trans)
  qed
qed

lemma construct'_replay:
  assumes "construct' n w s k = Some (r, s')" and "quiet w"
  shows "\<exists>es. calls' s' = calls' s @ es \<and> replay (instances' s) es = Some (instances' s')"
  using assms
proof (induction rule: construct'_steps [where R = "\<lambda>a b. \<exists>es. calls' b = calls' a @ es
      \<and> replay (instances' a) es = Some (instances' b)"])
  case (refl s)
  then show ?case by simp
next
  case (trans a b c)
  then obtain es1 es2 where "calls' b = calls' a @ es1" "replay (instances' a) es1 = Some (instances' b)"
    "calls' c = calls' b @ es2" "replay (instances' b) es2 = Some (instances' c)" by blast
  then have "calls' c = calls' a @ (es1 @ es2)" "replay (instances' a) (es1 @ es2) = Some (instances' c)"
    by (simp_all add: replay_append)
  then show ?case by blast
qed (simp_all add: add'_def)

section \<open>Where a call can fail, without callbacks\<close>

lemma array_map'_failure:
  assumes "array_map' f s xs = Some (Inl e, s')"
  shows "\<exists>i<length xs. \<exists>vs s1. array_map' f s (take i xs) = Some (Inr vs, s1)
      \<and> f s1 (xs ! i) = Some (Inl e, s')"
  using assms
proof (induction xs arbitrary: s)
  case Nil
  then show ?case by simp
next
  case (Cons x xs)
  from Cons.prems obtain r0 s0 where f: "f s x = Some (r0, s0)"
    by (auto split: option.splits)
  show ?case
  proof (cases r0)
    case (Inl e0)
    with Cons.prems f have "f s ((x # xs) ! 0) = Some (Inl e, s')" by simp
    moreover have "array_map' f s (take 0 (x # xs)) = Some (Inr [], s)" by simp
    ultimately show ?thesis by blast
  next
    case (Inr v)
    with Cons.prems f have "array_map' f s0 xs = Some (Inl e, s')"
      by (auto split: option.splits sum.splits)
    from Cons.IH [OF this] obtain i vs s1 where i: "i < length xs"
      and pre: "array_map' f s0 (take i xs) = Some (Inr vs, s1)"
      and fail: "f s1 (xs ! i) = Some (Inl e, s')" by blast
    from pre f Inr have "array_map' f s (take (Suc i) (x # xs)) = Some (Inr (v # vs), s1)" by simp
    moreover from fail have "f s1 ((x # xs) ! Suc i) = Some (Inl e, s')" by simp
    moreover from i have "Suc i < length (x # xs)" by simp
    ultimately show ?thesis by blast
  qed
qed

lemma array_map'_success_events:
  assumes step: "\<And>s x v s'. f s x = Some (Inr v, s') \<Longrightarrow> \<exists>es. calls' s' = calls' s @ es \<and> list_all E es"
  shows "array_map' f s xs = Some (Inr vs, s') \<Longrightarrow> \<exists>es. calls' s' = calls' s @ es \<and> list_all E es"
proof (induction xs arbitrary: s vs)
  case Nil
  then show ?case by simp
next
  case (Cons x xs)
  from Cons.prems obtain v s1 vs' where head: "f s x = Some (Inr v, s1)"
    and rest: "array_map' f s1 xs = Some (Inr vs', s')"
    by (auto split: option.splits sum.splits)
  from step [OF head] obtain es1 where 1: "calls' s1 = calls' s @ es1" "list_all E es1" by blast
  from Cons.IH [OF rest] obtain es2 where 2: "calls' s' = calls' s1 @ es2" "list_all E es2" by blast
  from 1 2 have "calls' s' = calls' s @ (es1 @ es2)" "list_all E (es1 @ es2)" by simp_all
  then show ?case by blast
qed

lemma construct'_failures:
  assumes quiet: "quiet w"
  shows "construct' n w s k = Some (r, s') \<Longrightarrow>
     \<exists>es. calls' s' = calls' s @ es \<and> list_all (\<lambda>e. \<not> failed e) (butlast es)
       \<and> (\<not> isl r \<longrightarrow> list_all (\<lambda>e. \<not> failed e) es)"
proof (induction n arbitrary: s k r s')
  case 0
  then show ?case by simp
next
  case (Suc n)
  have ok: "\<exists>es. calls' s1 = calls' a @ es \<and> list_all (\<lambda>e. \<not> failed e) es"
    if "array_map' (construct' n w) a ds = Some (Inr vs, s1)" for a ds vs s1
    using that
  proof (rule array_map'_success_events [rotated])
    fix a x v b assume "construct' n w a x = Some (Inr v, b)"
    from Suc.IH [OF this] show "\<exists>es. calls' b = calls' a @ es \<and> list_all (\<lambda>e. \<not> failed e) es"
      by auto
  qed
  from Suc.prems quiet show ?case
  proof (cases rule: construct'_cases)
    case (cached m v)
    then show ?thesis by simp
  next
    case (provider_throws m fn e)
    then show ?thesis by simp
  next
    case (provider_returns m fn v)
    then show ?thesis by (simp add: add'_def failed_def)
  next
    case (dependencies_throws m e)
    then show ?thesis by simp
  next
    case (dependency_fails m ds e)
    from dependency_fails(1,5) have "array_map' (construct' n w) s ds = Some (Inl e, s')" by simp
    from array_map'_failure [OF this] obtain i vs s1 where i: "i < length ds"
      and pre: "array_map' (construct' n w) s (take i ds) = Some (Inr vs, s1)"
      and fail: "construct' n w s1 (ds ! i) = Some (Inl e, s')" by blast
    from ok [OF pre] obtain es1 where es1: "calls' s1 = calls' s @ es1" "list_all (\<lambda>e. \<not> failed e) es1"
      by blast
    from Suc.IH [OF fail] obtain es2 where es2: "calls' s' = calls' s1 @ es2"
      "list_all (\<lambda>e. \<not> failed e) (butlast es2)" by auto
    have "calls' s' = calls' s @ (es1 @ es2)" using es1 es2 by simp
    moreover have "list_all (\<lambda>e. \<not> failed e) (butlast (es1 @ es2))"
      using es1(2) es2(2) by (rule butlast_ok_append)
    ultimately show ?thesis using dependency_fails(6) by auto
  next
    case (new_throws m ds args s1 e)
    from new_throws(1,5) have "array_map' (construct' n w) s ds = Some (Inr args, s1)" by simp
    from ok [OF this] obtain es1 where es1: "calls' s1 = calls' s @ es1" "list_all (\<lambda>e. \<not> failed e) es1"
      by blast
    let ?es = "es1 @ [Constructed k args (Inl e)]"
    have "calls' s' = calls' s @ ?es" "list_all (\<lambda>e. \<not> failed e) (butlast ?es)"
      using es1 new_throws(8) by simp_all
    then show ?thesis using new_throws(7) by auto
  next
    case (new_returns m ds args s1 a v)
    from new_returns(1,5) have "array_map' (construct' n w) s ds = Some (Inr args, s1)" by simp
    from ok [OF this] obtain es1 where es1: "calls' s1 = calls' s @ es1" "list_all (\<lambda>e. \<not> failed e) es1"
      by blast
    let ?es = "es1 @ [Constructed k args (Inr v)]"
    have "calls' s' = calls' s @ ?es" "list_all (\<lambda>e. \<not> failed e) ?es"
      using es1 new_returns(9) by (simp_all add: add'_def failed_def)
    then show ?thesis using new_returns(8) by auto
  qed
qed

section \<open>The life of a container, without callbacks\<close>

lemma run'_calls:
  "quiet w \<Longrightarrow> run' n w s ops = Some s' \<Longrightarrow> \<exists>es. calls' s' = calls' s @ es"
proof (induction ops arbitrary: s)
  case Nil
  then show ?case by simp
next
  case (Cons x ops)
  from Cons.prems obtain s1 where 1: "step' n w s x = Some s1" and 2: "run' n w s1 ops = Some s'"
    by (auto split: option.splits)
  from 1 Cons.prems(1) have "\<exists>es. calls' s1 = calls' s @ es"
    by (cases x) (auto simp: add'_def provide'_def dest: construct'_calls)
  with Cons.IH [OF Cons.prems(1) 2] show ?case by auto
qed

lemma step'_constructions:
  assumes quiet: "quiet w" and step: "step' n w s x = Some s1"
    and len: "L \<le> length (calls' s)"
    and inv: "\<forall>k. length (filter (constructs k) (drop L (calls' s))) \<le> 1
        \<and> (filter (constructs k) (drop L (calls' s)) \<noteq> [] \<longrightarrow> instances' s k \<noteq> None)"
  shows "L \<le> length (calls' s1) \<and>
     (\<forall>k. length (filter (constructs k) (drop L (calls' s1))) \<le> 1
        \<and> (filter (constructs k) (drop L (calls' s1)) \<noteq> [] \<longrightarrow> instances' s1 k \<noteq> None))"
proof (cases x)
  case (Do_add j v)
  with step len inv show ?thesis by (auto simp: add'_def)
next
  case (Do_provide j fn)
  with step len inv show ?thesis by (auto simp: provide'_def)
next
  case (Do_construct j)
  with step obtain r where run: "construct' n w s j = Some (r, s1)" by auto
  from construct'_replay [OF run quiet] obtain es where es: "calls' s1 = calls' s @ es"
    and rp: "replay (instances' s) es = Some (instances' s1)" by blast
  from es len have drop: "drop L (calls' s1) = drop L (calls' s) @ es" by simp
  have "length (filter (constructs k) (drop L (calls' s1))) \<le> 1
      \<and> (filter (constructs k) (drop L (calls' s1)) \<noteq> [] \<longrightarrow> instances' s1 k \<noteq> None)" for k
  proof (cases "instances' s k")
    case (Some v)
    with replay_cached [OF rp, of k] have "filter (\<lambda>e. event_key e = k) es = []"
      and "instances' s1 k \<noteq> None" by simp_all
    with inv show ?thesis unfolding drop by (simp add: filter_constructs_cached)
  next
    case None
    with inv have before: "filter (constructs k) (drop L (calls' s)) = []" by blast
    have "length (filter (constructs k) es) \<le> length (filter (\<lambda>e. event_key e = k \<and> \<not> failed e) es)"
      by (rule fewer_events) (rule constructs_key)
    moreover from replay_produced [OF rp, of k]
    have "length (filter (\<lambda>e. event_key e = k \<and> \<not> failed e) es) \<le> 1"
      and "filter (\<lambda>e. event_key e = k \<and> \<not> failed e) es \<noteq> [] \<longrightarrow> instances' s1 k \<noteq> None"
      by simp_all
    moreover have "filter (\<lambda>e. event_key e = k \<and> \<not> failed e) es \<noteq> []"
      if "filter (constructs k) es \<noteq> []"
      using that by (auto simp: filter_empty_conv dest: constructs_key)
    ultimately show ?thesis unfolding drop using before by auto
  qed
  with es len show ?thesis by simp
qed

lemma run'_constructions:
  assumes "quiet w" and "run' n w s ops = Some s'"
    and "L \<le> length (calls' s)"
    and "\<forall>k. length (filter (constructs k) (drop L (calls' s))) \<le> 1
        \<and> (filter (constructs k) (drop L (calls' s)) \<noteq> [] \<longrightarrow> instances' s k \<noteq> None)"
  shows "\<forall>k. length (filter (constructs k) (drop L (calls' s'))) \<le> 1"
  using assms(2-)
proof (induction ops arbitrary: s)
  case Nil
  then show ?case by simp
next
  case (Cons x ops)
  from Cons.prems(1) obtain s1 where 1: "step' n w s x = Some s1" and 2: "run' n w s1 ops = Some s'"
    by (auto split: option.splits)
  from step'_constructions [OF assms(1) 1 Cons.prems(2,3)] Cons.IH [OF 2] show ?case by blast
qed

section \<open>The bound on the recursion when caller code may call back\<close>

text \<open>
  More fuel does not change the outcome of a call that returns, whatever the caller code
  does; without callbacks a call returns on an acyclic dependency graph.
\<close>

lemma exec_mono:
  assumes "\<And>s x y. f s x = Some y \<Longrightarrow> g s x = Some y"
  shows "exec body f s = Some y \<Longrightarrow> exec body g s = Some y"
proof (induction body arbitrary: s)
  case (Call_construct key rest)
  from Call_construct.prems obtain r s1 where f: "f s key = Some (r, s1)"
    and rest: "exec (rest r) f s1 = Some y"
    by (auto split: option.splits)
  from f have "g s key = Some (r, s1)" by (rule assms)
  moreover from rest have "exec (rest r) g s1 = Some y"
    by (rule Call_construct.IH [OF rangeI])
  ultimately show ?case by simp
qed simp_all

lemma array_map'_mono:
  assumes "\<And>s x y. f s x = Some y \<Longrightarrow> g s x = Some y"
  shows "array_map' f s xs = Some y \<Longrightarrow> array_map' g s xs = Some y"
proof (induction xs arbitrary: s y)
  case Nil
  then show ?case by simp
next
  case (Cons x xs)
  from Cons.prems obtain r0 s0 where f: "f s x = Some (r0, s0)"
    by (auto split: option.splits)
  then have g: "g s x = Some (r0, s0)" by (rule assms)
  show ?case
  proof (cases r0)
    case (Inl e)
    with Cons.prems f g show ?thesis by simp
  next
    case (Inr v)
    with Cons.prems f obtain y1 where rest: "array_map' f s0 xs = Some y1"
      by (auto split: option.splits)
    from Cons.IH [OF rest] have "array_map' g s0 xs = Some y1" .
    with Cons.prems f g Inr rest show ?thesis by simp
  qed
qed

lemma body_mono:
  assumes fg: "\<And>s x y. f s x = Some y \<Longrightarrow> g s x = Some y"
  shows "constructViaProvider' f w s k = Some y \<Longrightarrow> constructViaProvider' g w s k = Some y"
    and "constructViaDependencies' f w s k = Some y \<Longrightarrow> constructViaDependencies' g w s k = Some y"
proof -
  show "constructViaProvider' g w s k = Some y" if run: "constructViaProvider' f w s k = Some y"
  proof -
    from run obtain z where z: "exec (function_code w (Map_get (providers' s) k)) f s = Some z"
      by (auto simp: constructViaProvider'_def split: option.splits)
    then have "exec (function_code w (Map_get (providers' s) k)) g s = Some z"
      by (rule exec_mono [rotated]) (rule fg)
    with z run show ?thesis by (simp add: constructViaProvider'_def)
  qed
  have inst: "instantiate' g w a k args = Some y" if run: "instantiate' f w a k args = Some y" for a args
  proof -
    from run obtain z where z: "exec (constructor_code w k args) f a = Some z"
      by (auto simp: instantiate'_def split: option.splits)
    then have "exec (constructor_code w k args) g a = Some z"
      by (rule exec_mono [rotated]) (rule fg)
    with z run show ?thesis by (simp add: instantiate'_def)
  qed
  show "constructViaDependencies' g w s k = Some y" if run: "constructViaDependencies' f w s k = Some y"
  proof -
    from run obtain r0 s0 where d: "exec (dependencies_code w k) f s = Some (r0, s0)"
      by (auto simp: constructViaDependencies'_def split: option.splits)
    then have d': "exec (dependencies_code w k) g s = Some (r0, s0)"
      by (rule exec_mono [rotated]) (rule fg)
    show ?thesis
    proof (cases r0)
      case (Inl e)
      with run d d' show ?thesis by (simp add: constructViaDependencies'_def)
    next
      case (Inr ds)
      note r0 = this
      with run d obtain r1 s1 where am: "array_map' f s0 ds = Some (r1, s1)"
        by (auto simp: constructViaDependencies'_def split: option.splits)
      then have am': "array_map' g s0 ds = Some (r1, s1)"
        by (rule array_map'_mono [rotated]) (rule fg)
      show ?thesis
      proof (cases r1)
        case (Inl e)
        with run d d' r0 am am' show ?thesis by (simp add: constructViaDependencies'_def)
      next
        case (Inr args)
        with run d r0 am have "instantiate' f w s1 k args = Some y"
          by (simp add: constructViaDependencies'_def)
        from inst [OF this] d' r0 am' Inr show ?thesis
          by (simp add: constructViaDependencies'_def)
      qed
    qed
  qed
qed

lemma construct'_fuel_Suc:
  "construct' n w s k = Some y \<Longrightarrow> construct' (Suc n) w s k = Some y"
proof (induction n arbitrary: s k y)
  case 0
  then show ?case by simp
next
  case (Suc n)
  let ?body = "\<lambda>f. if Map_has (instances' s) k then Some (Inr (Map_get (instances' s) k), s)
        else if Map_has (providers' s) k then constructViaProvider' f w s k
        else constructViaDependencies' f w s k"
  from Suc.prems have tc: "try_catch' w k (?body (construct' n w)) = Some y"
    by (simp add: construct'.simps(2))
  then obtain z where z: "?body (construct' n w) = Some z"
    by (auto simp: try_catch'_def split: option.splits)
  then have "?body (construct' (Suc n) w) = Some z"
    using body_mono [where f = "construct' n w" and g = "construct' (Suc n) w" and w = w and s = s
        and k = k and y = z] Suc.IH
    by (auto split: if_splits)
  with tc z show ?case by (simp add: construct'.simps(2) [of "Suc n"])
qed

lemma construct'_fuel:
  "construct' n w s k = Some y \<Longrightarrow> n \<le> m \<Longrightarrow> construct' m w s k = Some y"
  by (induction m) (auto simp: le_Suc_eq construct'_fuel_Suc)

lemma array_map'_total:
  assumes "\<And>s x. x \<in> set xs \<Longrightarrow> f s x \<noteq> None"
  shows "array_map' f s xs \<noteq> None"
  using assms
proof (induction xs arbitrary: s)
  case Nil
  then show ?case by simp
next
  case (Cons x xs)
  then obtain r0 s0 where f: "f s x = Some (r0, s0)" by fastforce
  from Cons have "array_map' f s0 xs \<noteq> None" by simp
  with f show ?case by (auto split: sum.splits)
qed

lemma construct'_terminates:
  assumes quiet: "quiet w"
    and acyclic: "\<And>k ds d. result_of (dependencies_code w k) = Inr ds \<Longrightarrow> d \<in> set ds \<Longrightarrow> rank d < rank k"
  shows "construct' (Suc (rank k)) w s k \<noteq> None"
proof (induction "rank k" arbitrary: k s rule: less_induct)
  case less
  show ?case
  proof (cases "instances' s k")
    case (Some v)
    then show ?thesis by (simp add: construct'_cached)
  next
    case None
    note u = this
    show ?thesis
    proof (cases "providers' s k")
      case (Some f)
      then show ?thesis
        by (simp add: construct'_provider [OF u Some] try_catch'_rethrown quiet_provider [OF quiet Some]
            split: sum.splits)
    next
      case None
      show ?thesis
      proof (cases "result_of (dependencies_code w k)")
        case (Inl e)
        then show ?thesis
          by (simp add: construct'_default [OF u None] try_catch'_rethrown quiet_dependencies [OF quiet])
      next
        case (Inr ds)
        have "array_map' (construct' (rank k) w) s ds \<noteq> None"
        proof (rule array_map'_total)
          fix a d assume d: "d \<in> set ds"
          with Inr have lt: "rank d < rank k" by (rule acyclic)
          then obtain y where "construct' (Suc (rank d)) w a d = Some y"
            using less [of d a] by auto
          then have "construct' (rank k) w a d = Some y"
            by (rule construct'_fuel) (use lt in simp)
          then show "construct' (rank k) w a d \<noteq> None" by simp
        qed
        with Inr show ?thesis
          by (auto simp: construct'_default [OF u None] try_catch'_rethrown quiet_dependencies [OF quiet]
              quiet_instantiate [OF quiet] split: prod.splits sum.splits option.splits)
      qed
    qed
  qed
qed

section \<open>The value of a provider, without callbacks\<close>




section \<open>Evaluating the examples of caller code\<close>

lemma quiet_lift_world:
  assumes "\<And>r body. fs r = Some body \<Longrightarrow> immediate body"
  shows "quiet (lift_world w fs)"
  using assms by (auto simp: quiet_def lift_world_def split: option.splits sum.splits)

lemma quiet_test_caller: "quiet test_caller"
  unfolding test_caller_def by (rule quiet_lift_world) (auto split: if_splits)

lemmas eval'_defs = construct'.simps(2) try_catch'_def Map_has_def Map_get_def
  constructViaProvider'_def constructViaDependencies'_def instantiate'_def add'_def provide'_def
  new_ConstructionError'_def reference'_def new_DIContainer'_def Let_def

lemmas callbacks_defs = empty_container_def Shared_def shared_instance_def Flag_def Token_def
  Part_def thrower_def reenter_def steady_def Whole_def part_provider_def Bare_def Named_def
  callbacks_def

lemmas test_caller_defs = test_caller_def lift_world_def hello_def empty_container_def test_defs

section \<open>Plain caller code\<close>

text \<open>
  On plain caller code the second model is the first: \<^verbatim>\<open>construct\<close> returns the same
  outcome and leaves the same state, for every bound on the recursion.
\<close>

lemma lift_world_dependencies:
  "dependencies_code (lift_world w fs) k
     = (case get_dependencies w k of Inl e \<Rightarrow> Throw e | Inr ds \<Rightarrow> Return ds)"
  by (cases k) (auto simp: lift_world_def split: option.splits sum.splits)

lemma lift_world_constructor:
  "constructor_code (lift_world w fs) k args
     = (case js_new w k args of None \<Rightarrow> Return None | Some e \<Rightarrow> Throw e)"
  by (cases k) (auto simp: lift_world_def split: option.splits)

lemma lift_world_ConstructionError:
  "new_ConstructionError' (lift_world w fs) k e = Inr (new_ConstructionError w k e)"
proof (cases k)
  case (Obj r)
  then show ?thesis
    by (cases "obj_name w r")
      (simp_all add: new_ConstructionError'_def reference'_def new_ConstructionError_def
        reference_def lift_world_def)
qed (simp_all add: new_ConstructionError'_def reference'_def new_ConstructionError_def reference_def)

lemma as_state_simps:
  "instances (as_state w fs c) = instances' c"
  "allocated (as_state w fs c) = allocated' c"
  "calls (as_state w fs c) = calls' c"
  "providers (as_state w fs c) k
     = map_option (\<lambda>f _. result_of (function_code (lift_world w fs) f)) (providers' c k)"
  by (simp_all add: as_state_def)

lemma as_state_update:
  "as_state w fs (add' c k v) = add (as_state w fs c) k v"
  "as_state w fs (c\<lparr>calls' := es\<rparr>) = (as_state w fs c)\<lparr>calls := es\<rparr>"
  "as_state w fs (c\<lparr>allocated' := a\<rparr>) = (as_state w fs c)\<lparr>allocated := a\<rparr>"
  by (simp_all add: as_state_def add'_def add_def)

lemma array_map_plain:
  assumes "\<And>c x. f (as_state w fs c) x = map_option (apsnd (as_state w fs)) (f' c x)"
  shows "array_map f (as_state w fs c) xs = map_option (apsnd (as_state w fs)) (array_map' f' c xs)"
proof (induction xs arbitrary: c)
  case Nil
  then show ?case by simp
next
  case (Cons x xs)
  show ?case
  proof (cases "f' c x")
    case None
    with assms [of c x] show ?thesis by simp
  next
    case (Some p)
    obtain r c1 where p: "p = (r, c1)" by (cases p)
    with Some assms [of c x] have 1: "f (as_state w fs c) x = Some (r, as_state w fs c1)" by simp
    show ?thesis
    proof (cases r)
      case (Inl e)
      with 1 Some p show ?thesis by simp
    next
      case (Inr v)
      with 1 Some p Cons.IH [of c1] show ?thesis
        by (cases "array_map' f' c1 xs") (auto split: sum.splits)
    qed
  qed
qed

lemma construct'_plain:
  assumes fs: "\<And>r body. fs r = Some body \<Longrightarrow> immediate body"
  shows "construct n w (as_state w fs c) k
     = map_option (apsnd (as_state w fs)) (construct' n (lift_world w fs) c k)"
proof (induction n arbitrary: c k)
  case 0
  then show ?case by simp
next
  case (Suc n)
  let ?W = "lift_world w fs"
  let ?as = "as_state w fs"
  have quiet: "quiet ?W" using fs by (rule quiet_lift_world)
  have wrap: "try_catch w k (map_option (apsnd ?as) body) = map_option (apsnd ?as) (try_catch' ?W k body)"
    for body
    by (simp add: try_catch_def try_catch'_def lift_world_ConstructionError
        split: option.splits sum.splits prod.splits)
  show ?case
  proof (cases "instances' c k")
    case (Some v)
    then have "instances (?as c) k = Some v" by (simp add: as_state_simps)
    with Some show ?thesis by (simp add: construct_cached construct'_cached)
  next
    case None
    then have i: "instances (?as c) k = None" by (simp add: as_state_simps)
    show ?thesis
    proof (cases "providers' c k")
      case (Some f)
      let ?fn = "\<lambda>_::unit. result_of (function_code ?W f)"
      have p: "providers (?as c) k = Some ?fn" using Some by (simp add: as_state_simps)
      have "Some (constructViaProvider (?as c) k)
          = map_option (apsnd ?as) (constructViaProvider' (construct' n ?W) ?W c k)"
        by (cases "result_of (function_code ?W f)")
          (simp_all add: quiet_provider [OF quiet Some] constructViaProvider_def Some Let_def
            as_state_update as_state_simps)
      with i p None Some wrap show ?thesis
        by (simp add: construct.simps(2) construct'_provider Map_has_def)
    next
      case np: None
      then have p: "providers (?as c) k = None" by (simp add: as_state_simps)
      have deps: "exec (dependencies_code ?W k) (construct' n ?W) c
          = Some (get_dependencies w k, c)"
        by (simp add: lift_world_dependencies split: sum.splits)
      have inst: "Some (instantiate w (?as c1) k args)
          = map_option (apsnd ?as) (instantiate' (construct' n ?W) ?W c1 k args)" for c1 args
        by (cases "js_new w k args")
          (simp_all add: instantiate'_def instantiate_def lift_world_constructor Let_def
            as_state_update as_state_simps)
      have "constructViaDependencies (construct n w) w (?as c) k
          = map_option (apsnd ?as) (constructViaDependencies' (construct' n ?W) ?W c k)"
        using array_map_plain [where f = "construct n w" and f' = "construct' n ?W" and w = w
            and fs = fs, OF Suc.IH]
        by (simp add: constructViaDependencies_def constructViaDependencies'_def deps inst
            split: sum.splits option.splits prod.splits)
      with i p None np wrap show ?thesis
        by (simp add: construct.simps(2) construct'_default Map_has_def)
    qed
  qed
qed

section \<open>Singletons\<close>

text \<open>
  Against C1 as it is stated: a constructor may return an object of its own, and \<^verbatim>\<open>new\<close>
  then yields that object (lines 120 to 122 store and return whatever \<^verbatim>\<open>new\<close> yields).
  The constructor of \<open>Shared\<close> returns an object that exists already. The key has no
  \<^verbatim>\<open>dependencies\<close> and its constructor completes, and \<^verbatim>\<open>construct\<close> on a new container
  returns that object: nothing is allocated, the value is not a newly constructed instance.
\<close>

theorem returned_object_is_not_new:
  "dependencies_code callbacks Shared = Return []
   \<and> map_option fst (construct' 1 callbacks (new_DIContainer' empty_container) Shared)
       = Some (Inr shared_instance)
   \<and> map_option (allocated' \<circ> snd) (construct' 1 callbacks (new_DIContainer' empty_container) Shared)
       = Some (allocated' empty_container)
   \<and> shared_instance = Obj (Static 11)"
  by (simp add: eval'_defs callbacks_defs)

text \<open>
  C1, as amended. A key on a new container whose \<^verbatim>\<open>dependencies\<close> method is absent or
  returns the empty array, and whose constructor, called without arguments, completes.
  \<^verbatim>\<open>construct\<close> returns what \<^verbatim>\<open>new\<close> yields: the object that the constructor returns when
  it returns one, and otherwise a newly allocated instance. That value is logged as the
  outcome of one \<^verbatim>\<open>new\<close> and stored under the key, and a second \<^verbatim>\<open>construct\<close> returns the
  same value and leaves the state, and so the log of constructor calls, as it is. The
  caller code of the key may call back into the container: \<open>sd\<close> and \<open>sb\<close> are the
  states in which the \<^verbatim>\<open>dependencies\<close> method and the constructor leave it.
\<close>

theorem singleton_of_what_new_yields:
  assumes "exec (dependencies_code w k) (construct' n w) (new_DIContainer' s) = Some (Inr [], sd)"
    and "exec (constructor_code w k []) (construct' n w) sd = Some (Inr ret, sb)"
  shows "\<exists>v s1. construct' (Suc n) w (new_DIContainer' s) k = Some (Inr v, s1)
     \<and> v = (case ret of None \<Rightarrow> Obj (Allocated (allocated' sb)) | Some r \<Rightarrow> Obj r)
     \<and> allocated' s1 = (case ret of None \<Rightarrow> Suc (allocated' sb) | Some r \<Rightarrow> allocated' sb)
     \<and> calls' s1 = calls' sb @ [Constructed k [] (Inr v)]
     \<and> instances' s1 = (instances' sb)(k \<mapsto> v)
     \<and> construct' (Suc m) w s1 k = Some (Inr v, s1)"
proof -
  let ?v = "case ret of None \<Rightarrow> Obj (Allocated (allocated' sb)) | Some r \<Rightarrow> Obj r"
  let ?a = "case ret of None \<Rightarrow> Suc (allocated' sb) | Some r \<Rightarrow> allocated' sb"
  let ?s1 = "add' (sb\<lparr>allocated' := ?a, calls' := calls' sb @ [Constructed k [] (Inr ?v)]\<rparr>) k ?v"
  have "construct' (Suc n) w (new_DIContainer' s) k
      = try_catch' w k (constructViaDependencies' (construct' n w) w (new_DIContainer' s) k)"
    by (rule construct'_default) (simp_all add: new_DIContainer'_def)
  with assms have 1: "construct' (Suc n) w (new_DIContainer' s) k = Some (Inr ?v, ?s1)"
    by (cases ret) (simp_all add: try_catch'_def constructViaDependencies'_def instantiate'_def Let_def)
  have "instances' ?s1 k = Some ?v" by (simp add: add'_def)
  then have 2: "construct' (Suc m) w ?s1 k = Some (Inr ?v, ?s1)" by (rule construct'_cached)
  have 3: "allocated' ?s1 = ?a" "calls' ?s1 = calls' sb @ [Constructed k [] (Inr ?v)]"
    "instances' ?s1 = (instances' sb)(k \<mapsto> ?v)"
    by (simp_all add: add'_def)
  from 1 2 3 show ?thesis by blast
qed

theorem singleton_of_what_new_yields_witness:
  "(\<exists>s1. construct' 1 test_caller (new_DIContainer' empty_container) NoDependencies
        = Some (Inr (Obj (Allocated 0)), s1)
      \<and> allocated' s1 = 1
      \<and> calls' s1 = [Constructed NoDependencies [] (Inr (Obj (Allocated 0)))]
      \<and> instances' s1 = [NoDependencies \<mapsto> Obj (Allocated 0)]
      \<and> construct' 1 test_caller s1 NoDependencies = Some (Inr (Obj (Allocated 0)), s1))
   \<and> (\<exists>s1. construct' 1 callbacks (new_DIContainer' empty_container) Shared
        = Some (Inr shared_instance, s1)
      \<and> allocated' s1 = 0
      \<and> calls' s1 = [Constructed Shared [] (Inr shared_instance)]
      \<and> instances' s1 = [Shared \<mapsto> shared_instance]
      \<and> construct' 1 callbacks s1 Shared = Some (Inr shared_instance, s1))"
proof -
  let ?s = "new_DIContainer' empty_container"
  have 1: "exec (dependencies_code test_caller NoDependencies) (construct' 0 test_caller) ?s = Some (Inr [], ?s)"
    and 2: "exec (constructor_code test_caller NoDependencies []) (construct' 0 test_caller) ?s = Some (Inr None, ?s)"
    by (simp_all add: test_caller_defs)
  have 3: "exec (dependencies_code callbacks Shared) (construct' 0 callbacks) ?s = Some (Inr [], ?s)"
    and 4: "exec (constructor_code callbacks Shared []) (construct' 0 callbacks) ?s
        = Some (Inr (Some (Static 11)), ?s)"
    by (simp_all add: callbacks_defs)
  from singleton_of_what_new_yields [OF 1 2, of 0] singleton_of_what_new_yields [OF 3 4, of 0]
  show ?thesis
    by (auto simp: empty_container_def new_DIContainer'_def shared_instance_def)
qed

section \<open>Cache first\<close>

text \<open>
  C2. Registering a value with \<^verbatim>\<open>add\<close> and then constructing the same key returns that
  value: the state after the call is the state before it, so no provider and no
  constructor is called (the log is part of the state) and the container is unchanged.
  This holds in every state, also when a provider is registered for the key.
\<close>

theorem add_then_construct:
  "construct (Suc n) w (add s k v) k = Some (Inr v, add s k v)
   \<and> providers (add (provide s k fn) k v) k = Some fn
   \<and> construct (Suc n) w (add (provide s k fn) k v) k = Some (Inr v, add (provide s k fn) k v)"
  by (simp add: construct_cached add_def provide_def)

theorem add_then_construct_witness:
  "construct 1 test_world (add (provide empty_state NoDependencies (\<lambda>_. Inr (Str ''unused''))) NoDependencies (Str ''registered'')) NoDependencies
     = Some (Inr (Str ''registered''),
         add (provide empty_state NoDependencies (\<lambda>_. Inr (Str ''unused''))) NoDependencies (Str ''registered''))"
  using add_then_construct [of 0 test_world "provide empty_state NoDependencies (\<lambda>_. Inr (Str ''unused''))"
      NoDependencies "Str ''registered''"]
  by simp

section \<open>Order of the dependencies\<close>

text \<open>
  C3. A key on the default path (not cached, no provider) whose \<^verbatim>\<open>dependencies\<close> method
  returns \<open>ds\<close>. When the dependencies resolve to the values \<open>vs\<close>, each by a recursive
  \<^verbatim>\<open>construct\<close> that starts in the state the one before left (so from left to right in the
  declared order), \<^verbatim>\<open>construct\<close> evaluates \<^verbatim>\<open>new\<close> on the key with exactly \<open>vs\<close> as
  arguments, in the state the last dependency left, and returns what that gives. Conversely
  a call that returns a value has resolved the dependencies in this way.
\<close>

theorem dependencies_in_declared_order:
  assumes "instances s k = None" and "providers s k = None"
    and "get_dependencies w k = Inr ds"
  shows "(\<forall>ss vs. length ss = Suc (length ds) \<and> length vs = length ds \<and> ss ! 0 = s
            \<and> (\<forall>i<length ds. construct n w (ss ! i) (ds ! i) = Some (Inr (vs ! i), ss ! Suc i))
          \<longrightarrow> construct (Suc n) w s k = try_catch w k (Some (instantiate w (ss ! length ds) k vs))
            \<and> (\<exists>outcome. calls (snd (instantiate w (ss ! length ds) k vs))
                  = calls (ss ! length ds) @ [Constructed k vs outcome]))
     \<and> (\<forall>v s'. construct (Suc n) w s k = Some (Inr v, s')
          \<longrightarrow> (\<exists>ss vs. length ss = Suc (length ds) \<and> length vs = length ds \<and> ss ! 0 = s
                \<and> (\<forall>i<length ds. construct n w (ss ! i) (ds ! i) = Some (Inr (vs ! i), ss ! Suc i))
                \<and> js_new w k vs = None
                \<and> calls s' = calls (ss ! length ds) @ [Constructed k vs (Inr v)]))"
proof (intro conjI allI impI)
  fix ss vs
  assume chain: "length ss = Suc (length ds) \<and> length vs = length ds \<and> ss ! 0 = s
      \<and> (\<forall>i<length ds. construct n w (ss ! i) (ds ! i) = Some (Inr (vs ! i), ss ! Suc i))"
  then have "array_map (construct n w) (ss ! 0) ds = Some (Inr vs, ss ! length ds)"
    by (intro array_map_of_values) simp_all
  with chain assms(3)
  show "construct (Suc n) w s k = try_catch w k (Some (instantiate w (ss ! length ds) k vs))"
    by (simp add: construct_default [OF assms(1,2)] constructViaDependencies_def)
  show "\<exists>outcome. calls (snd (instantiate w (ss ! length ds) k vs))
      = calls (ss ! length ds) @ [Constructed k vs outcome]"
    using instantiate_calls [of w "ss ! length ds" k vs] by blast
next
  fix v s'
  assume "construct (Suc n) w s k = Some (Inr v, s')"
  then show "\<exists>ss vs. length ss = Suc (length ds) \<and> length vs = length ds \<and> ss ! 0 = s
      \<and> (\<forall>i<length ds. construct n w (ss ! i) (ds ! i) = Some (Inr (vs ! i), ss ! Suc i))
      \<and> js_new w k vs = None
      \<and> calls s' = calls (ss ! length ds) @ [Constructed k vs (Inr v)]"
  proof (cases rule: construct_cases)
    case (new_returns m ds' args s1)
    with assms(3) have ds: "ds' = ds" and m: "m = n" by simp_all
    from new_returns(5) obtain ss where "length ss = Suc (length ds)" "length args = length ds"
      "ss ! 0 = s" "ss ! length ds = s1"
      "\<forall>i<length ds. construct n w (ss ! i) (ds ! i) = Some (Inr (args ! i), ss ! Suc i)"
      unfolding ds m by (blast dest: array_map_values)
    moreover have "calls s' = calls s1 @ [Constructed k args (Inr v)]"
      using new_returns(7,8) by (simp add: add_def)
    ultimately show ?thesis using new_returns(6) by blast
  qed (use assms in simp_all)
qed

theorem dependencies_in_declared_order_witness:
  "\<exists>s'. construct 2 test_world empty_state DefaultsAndDependencies = Some (Inr (Obj (Allocated 2)), s')
     \<and> calls s' = [Constructed NoDependencies [] (Inr (Obj (Allocated 0))),
                   Constructed HasDefaults [] (Inr (Obj (Allocated 1))),
                   Constructed DefaultsAndDependencies [Obj (Allocated 0), Obj (Allocated 1)]
                     (Inr (Obj (Allocated 2)))]"
proof -
  let ?a = "add (empty_state\<lparr>allocated := 1,
      calls := [Constructed NoDependencies [] (Inr (Obj (Allocated 0)))]\<rparr>) NoDependencies (Obj (Allocated 0))"
  let ?b = "add (?a\<lparr>allocated := 2,
      calls := calls ?a @ [Constructed HasDefaults [] (Inr (Obj (Allocated 1)))]\<rparr>) HasDefaults (Obj (Allocated 1))"
  let ?ss = "[empty_state, ?a, ?b]"
  let ?vs = "[Obj (Allocated 0), Obj (Allocated 1)]"
  let ?ds = "[NoDependencies, HasDefaults]"
  have 1: "instances empty_state DefaultsAndDependencies = None"
    and 2: "providers empty_state DefaultsAndDependencies = None"
    and 3: "get_dependencies test_world DefaultsAndDependencies = Inr ?ds"
    by (simp_all add: test_defs)
  have a: "construct 1 test_world empty_state NoDependencies = Some (Inr (Obj (Allocated 0)), ?a)"
    by (simp add: eval_defs test_defs)
  have b: "construct 1 test_world ?a HasDefaults = Some (Inr (Obj (Allocated 1)), ?b)"
    by (simp add: eval_defs test_defs)
  have 4: "length ?ss = Suc (length ?ds) \<and> length ?vs = length ?ds \<and> ?ss ! 0 = empty_state
      \<and> (\<forall>i<length ?ds. construct 1 test_world (?ss ! i) (?ds ! i) = Some (Inr (?vs ! i), ?ss ! Suc i))"
    using a b by (simp add: less_Suc_eq)
  from dependencies_in_declared_order [OF 1 2 3, of 1] 4
  have "construct (Suc 1) test_world empty_state DefaultsAndDependencies
      = try_catch test_world DefaultsAndDependencies
          (Some (instantiate test_world (?ss ! length ?ds) DefaultsAndDependencies ?vs))"
    by blast
  then show ?thesis
    by (simp add: eval_defs test_defs eval_nat_numeral)
qed

section \<open>Providers\<close>




section \<open>At most one default construction\<close>

text \<open>
  Against C5 as it is stated: caller code runs before its result is cached (lines 110 and
  120 come before lines 111 and 121) and may call \<^verbatim>\<open>construct\<close> itself.
  The provider of \<open>Part\<close> constructs \<open>Whole\<close>, which declares \<open>Part\<close>, before its own result
  is cached. One \<^verbatim>\<open>construct\<close> of \<open>Whole\<close> on a new container then completes the constructor
  of \<open>Whole\<close> twice, and two instances exist.
\<close>

theorem constructed_twice_by_callback:
  "map_option calls' (run' 4 callbacks (new_DIContainer' empty_container)
       [Do_provide Part part_provider, Do_construct Whole])
     = Some [Constructed Whole [Str ''tmp''] (Inr (Obj (Allocated 0))),
             Provided Part (Inr (Str ''p'')),
             Constructed Whole [Str ''p''] (Inr (Obj (Allocated 1)))]
   \<and> map_option (\<lambda>s. length (filter (constructs Whole) (calls' s)))
       (run' 4 callbacks (new_DIContainer' empty_container)
         [Do_provide Part part_provider, Do_construct Whole]) = Some 2"
  by (simp add: eval'_defs callbacks_defs eval_nat_numeral)

text \<open>
  C5, as amended. When no provider, constructor or \<^verbatim>\<open>dependencies\<close> method calls back into
  the container: in the life of a container, from \<^verbatim>\<open>new DIContainer()\<close> through any sequence
  of \<^verbatim>\<open>add\<close>, \<^verbatim>\<open>provide\<close> and \<^verbatim>\<open>construct\<close> calls (failed ones included), the constructor of
  a key completes at most once. Within one \<^verbatim>\<open>construct\<close> call \<^verbatim>\<open>new\<close> is evaluated at most
  once on a key, however often the key occurs in the dependency graph; once a key is
  cached, no later call evaluates \<^verbatim>\<open>new\<close> on it, and \<^verbatim>\<open>construct\<close> returns the cached value.
  On an acyclic dependency graph (the keys can be ranked so that dependencies rank lower)
  the call returns.
\<close>

theorem at_most_one_construction_without_callbacks:
  assumes "quiet w"
  shows "(run' n w (new_DIContainer' s0) ops = Some s1
      \<longrightarrow> (\<exists>es. calls' s1 = calls' s0 @ es \<and> length (filter (constructs k) es) \<le> 1))
   \<and> (construct' n w s j = Some (r, s')
      \<longrightarrow> (\<exists>es. calls' s' = calls' s @ es \<and> length (filter (invokes k) es) \<le> 1
            \<and> (\<forall>v. instances' s k = Some v
                  \<longrightarrow> filter (invokes k) es = [] \<and> instances' s' k = Some v
                    \<and> construct' (Suc m) w s' k = Some (Inr v, s'))))
   \<and> ((\<forall>a ds d. dependencies_code w a = Return ds \<and> d \<in> set ds \<longrightarrow> rank d < rank a)
      \<longrightarrow> construct' (Suc (rank j)) w s j \<noteq> None)"
proof (intro conjI impI)
  assume run: "run' n w (new_DIContainer' s0) ops = Some s1"
  from run'_calls [OF assms run] obtain es where es: "calls' s1 = calls' s0 @ es"
    by (auto simp: new_DIContainer'_def)
  have "\<forall>k. length (filter (constructs k) (drop (length (calls' s0)) (calls' s1))) \<le> 1"
    using assms run by (rule run'_constructions) (simp_all add: new_DIContainer'_def)
  with es show "\<exists>es. calls' s1 = calls' s0 @ es \<and> length (filter (constructs k) es) \<le> 1"
    by auto
next
  assume run: "construct' n w s j = Some (r, s')"
  from construct'_replay [OF run assms] obtain es where es: "calls' s' = calls' s @ es"
    and rp: "replay (instances' s) es = Some (instances' s')" by blast
  from construct'_failures [OF assms run] es have "list_all (\<lambda>e. \<not> failed e) (butlast es)" by auto
  then have "\<forall>e\<in>set (butlast es). \<not> failed e" by (simp add: list_all_iff)
  with rp have "length (filter (\<lambda>e. event_key e = k) es) \<le> 1" by (rule replay_once)
  moreover have "length (filter (invokes k) es) \<le> length (filter (\<lambda>e. event_key e = k) es)"
    by (rule fewer_events) (rule invokes_key)
  ultimately have once: "length (filter (invokes k) es) \<le> 1" by simp
  have "filter (invokes k) es = [] \<and> instances' s' k = Some v
      \<and> construct' (Suc m) w s' k = Some (Inr v, s')" if "instances' s k = Some v" for v
  proof -
    from replay_cached [OF rp, of k] that have "filter (\<lambda>e. event_key e = k) es = []"
      and c: "instances' s' k = Some v" by simp_all
    then show ?thesis by (simp add: filter_constructs_cached construct'_cached)
  qed
  with es once
  show "\<exists>es. calls' s' = calls' s @ es \<and> length (filter (invokes k) es) \<le> 1
      \<and> (\<forall>v. instances' s k = Some v
            \<longrightarrow> filter (invokes k) es = [] \<and> instances' s' k = Some v
              \<and> construct' (Suc m) w s' k = Some (Inr v, s'))"
    by blast
next
  assume acyclic: "\<forall>a ds d. dependencies_code w a = Return ds \<and> d \<in> set ds \<longrightarrow> rank d < rank a"
  have "rank d < rank a" if "result_of (dependencies_code w a) = Inr ds" "d \<in> set ds" for a ds d
  proof -
    from that(1) have "dependencies_code w a = Return ds"
      by (cases "dependencies_code w a") simp_all
    with acyclic that(2) show ?thesis by blast
  qed
  with assms show "construct' (Suc (rank j)) w s j \<noteq> None"
    by (rule construct'_terminates)
qed

theorem at_most_one_construction_without_callbacks_witness:
  "quiet test_caller
   \<and> (\<exists>s1. run' 3 test_caller (new_DIContainer' empty_container)
          [Do_construct Diamond, Do_construct NoDependencies, Do_construct Diamond] = Some s1
     \<and> calls' s1 = [Constructed NoDependencies [] (Inr (Obj (Allocated 0))),
                   Constructed HasDefaults [] (Inr (Obj (Allocated 1))),
                   Constructed DefaultsAndDependencies [Obj (Allocated 0), Obj (Allocated 1)]
                     (Inr (Obj (Allocated 2))),
                   Constructed Diamond [Obj (Allocated 0), Obj (Allocated 2), Obj (Allocated 0)]
                     (Inr (Obj (Allocated 3)))]
     \<and> length (filter (constructs NoDependencies) (calls' s1)) \<le> 1)
   \<and> construct' 8 test_caller empty_container Diamond \<noteq> None"
proof -
  let ?rank = "\<lambda>k. case k of Obj (Static i) \<Rightarrow> i | _ \<Rightarrow> 0"
  obtain s1 where run: "run' 3 test_caller (new_DIContainer' empty_container)
          [Do_construct Diamond, Do_construct NoDependencies, Do_construct Diamond] = Some s1"
    and ev: "calls' s1 = [Constructed NoDependencies [] (Inr (Obj (Allocated 0))),
                   Constructed HasDefaults [] (Inr (Obj (Allocated 1))),
                   Constructed DefaultsAndDependencies [Obj (Allocated 0), Obj (Allocated 1)]
                     (Inr (Obj (Allocated 2))),
                   Constructed Diamond [Obj (Allocated 0), Obj (Allocated 2), Obj (Allocated 0)]
                     (Inr (Obj (Allocated 3)))]"
    by (simp add: eval'_defs test_caller_defs eval_nat_numeral)
  have acyclic: "\<forall>a ds d. dependencies_code test_caller a = Return ds \<and> d \<in> set ds
      \<longrightarrow> ?rank d < ?rank a"
  proof (intro allI impI)
    fix a ds d assume *: "dependencies_code test_caller a = Return ds \<and> d \<in> set ds"
    show "?rank d < ?rank a"
    proof (cases a)
      case (Obj r)
      with * show ?thesis
        by (cases r) (auto simp: test_caller_defs split: if_splits)
    qed (use * in auto)
  qed
  note inst = at_most_one_construction_without_callbacks [OF quiet_test_caller,
      where n = 3 and ?s0.0 = empty_container
      and ops = "[Do_construct Diamond, Do_construct NoDependencies, Do_construct Diamond]"
      and ?s1.0 = s1 and k = NoDependencies and s = empty_container and j = Diamond and rank = ?rank]
  from inst run have "length (filter (constructs NoDependencies) (calls' s1)) \<le> 1"
    by (auto simp: empty_container_def)
  moreover from inst acyclic have "construct' 8 test_caller empty_container Diamond \<noteq> None"
    by (simp add: Diamond_def)
  ultimately show ?thesis using run ev quiet_test_caller by blast
qed

section \<open>Wrapping of errors\<close>

text \<open>
  C6. The code does not do what the claim and the comment of \<^verbatim>\<open>construct\<close> in the source
  (\<^verbatim>\<open>@throws ConstructionError if construction fails for any reason\<close>) say. The constructor
  of \<^verbatim>\<open>ConstructionError\<close> runs inside the \<^verbatim>\<open>catch\<close> clause and calls into the key. For a key
  without \<^verbatim>\<open>name\<close> and without \<^verbatim>\<open>toString\<close>, \<^verbatim>\<open>x.toString()\<close> throws there: \<^verbatim>\<open>construct\<close> throws
  that \<^verbatim>\<open>TypeError\<close>, which is no \<^verbatim>\<open>ConstructionError\<close>, does not name the key and has no
  cause, and the failure of the construction itself (the key is not a constructor) is lost.
  For a class whose \<^verbatim>\<open>name\<close> is a symbol and whose constructor throws, the concatenation
  throws, and the exception of the constructor is lost in the same way.
\<close>

theorem failure_replaced_in_catch_clause:
  "map_option fst (construct' 1 callbacks empty_container Bare)
     = Some (Inl (TypeError ''x.toString is not a function''))
   \<and> map_option (calls' \<circ> snd) (construct' 1 callbacks empty_container Bare)
     = Some [Constructed Bare [] (Inl (TypeError ''object is not a constructor''))]
   \<and> map_option fst (construct' 1 callbacks empty_container Named)
     = Some (Inl (TypeError ''Cannot convert a Symbol value to a string''))
   \<and> map_option (calls' \<circ> snd) (construct' 1 callbacks empty_container Named)
     = Some [Constructed Named [] (Inl (Thrown (Str ''boom'')))]"
  by (simp add: eval'_defs callbacks_defs)

section \<open>The message of a ConstructionError\<close>



section \<open>Frame\<close>



section \<open>No rollback\<close>



section \<open>Undefined results\<close>

text \<open>
  C10. A provider that returns \<^verbatim>\<open>undefined\<close>, for a key that is not cached:
  \<^verbatim>\<open>construct\<close> calls it once, stores \<^verbatim>\<open>undefined\<close> under the key and returns it. From then
  on the key is in the cache: \<^verbatim>\<open>has\<close> is true although \<^verbatim>\<open>get\<close> returns \<^verbatim>\<open>undefined\<close>, as it
  did when the key was missing, and every later \<^verbatim>\<open>construct\<close> returns \<^verbatim>\<open>undefined\<close> and
  leaves the state, and so the log of provider calls, as it is.
\<close>

theorem undefined_provider_result_cached:
  assumes "instances s k = None" and "fn () = Inr Undefined"
  shows "\<exists>s1. construct (Suc n) w (provide s k fn) k = Some (Inr Undefined, s1)
     \<and> calls s1 = calls s @ [Provided k (Inr Undefined)]
     \<and> instances s1 = (instances s)(k \<mapsto> Undefined)
     \<and> Map_has (instances s1) k \<and> Map_get (instances s1) k = Undefined
     \<and> \<not> Map_has (instances s) k \<and> Map_get (instances s) k = Undefined
     \<and> construct (Suc m) w s1 k = Some (Inr Undefined, s1)
     \<and> run (Suc m) w s1 (replicate j (Construct k)) = Some s1"
proof -
  let ?s1 = "add (provide s k fn\<lparr>calls := calls s @ [Provided k (Inr Undefined)]\<rparr>) k Undefined"
  have "construct (Suc n) w (provide s k fn) k =
     (case fn () of
        Inl e \<Rightarrow> Some (Inl (new_ConstructionError w k e),
            provide s k fn\<lparr>calls := calls (provide s k fn) @ [Provided k (Inl e)]\<rparr>)
      | Inr v \<Rightarrow> Some (Inr v, add (provide s k fn\<lparr>calls := calls (provide s k fn) @ [Provided k (Inr v)]\<rparr>) k v))"
    by (rule construct_provider) (simp_all add: provide_def assms(1))
  then have 1: "construct (Suc n) w (provide s k fn) k = Some (Inr Undefined, ?s1)"
    unfolding assms(2) by (simp add: provide_def)
  have c: "instances ?s1 k = Some Undefined" by (simp add: add_def)
  then have 2: "construct (Suc m) w ?s1 k = Some (Inr Undefined, ?s1)" by (rule construct_cached)
  from c have 3: "run (Suc m) w ?s1 (replicate j (Construct k)) = Some ?s1" by (rule run_cached)
  have 4: "calls ?s1 = calls s @ [Provided k (Inr Undefined)]"
    "instances ?s1 = (instances s)(k \<mapsto> Undefined)"
    "Map_has (instances ?s1) k" "Map_get (instances ?s1) k = Undefined"
    "\<not> Map_has (instances s) k" "Map_get (instances s) k = Undefined"
    using assms(1) by (simp_all add: add_def provide_def Map_has_def Map_get_def)
  from 1 2 3 4 show ?thesis by blast
qed

theorem undefined_provider_result_cached_witness:
  "\<exists>s1. construct 1 test_world (provide empty_state (Sym 7 None) (\<lambda>_. Inr Undefined)) (Sym 7 None)
        = Some (Inr Undefined, s1)
     \<and> calls s1 = [Provided (Sym 7 None) (Inr Undefined)]
     \<and> Map_has (instances s1) (Sym 7 None) \<and> Map_get (instances s1) (Sym 7 None) = Undefined
     \<and> \<not> Map_has (instances empty_state) (Sym 7 None)
     \<and> construct 1 test_world s1 (Sym 7 None) = Some (Inr Undefined, s1)
     \<and> run 1 test_world s1 [Construct (Sym 7 None), Construct (Sym 7 None)] = Some s1"
proof -
  have 1: "instances empty_state (Sym 7 None) = None" by (simp add: empty_state_def)
  have 2: "(\<lambda>_. Inr Undefined :: exn + jsval) () = Inr Undefined" by simp
  from undefined_provider_result_cached [OF 1 2, of 0 test_world 0 2]
  show ?thesis by (auto simp: empty_state_def eval_nat_numeral)
qed

end
